theory Spec2Isabelle
  imports Complex_Main "HOL-Library.Word" "HOL-Library.Signed_Division" "HOL-Library.Multiset"
begin

unbundle bit_operations_syntax

section \<open>Machine integers\<close>

text \<open>
  The program works on \<^verbatim>\<open>int\<close> (32 bit, two's complement), \<^verbatim>\<open>long long\<close>
  (64 bit) and \<^verbatim>\<open>size_t\<close>. The elements of the workload are words of 32 bits; they
  are only ever handed to the predicate. Indices, sizes and thread counts are modelled
  as mathematical integers, and every place where the source narrows a value to
  \<^verbatim>\<open>int\<close> is written out with \<open>to_int\<close>, the modular conversion that C++20
  prescribes and that the mainstream compilers implement.
\<close>

type_synonym cint = "32 word"

definition INT_MAX :: int where
  "INT_MAX = 2 ^ 31 - 1"

definition INT_MIN :: int where
  "INT_MIN = - (2 ^ 31)"

definition to_int :: "int \<Rightarrow> int" where
  "to_int v = (v + 2 ^ 31) mod 2 ^ 32 - 2 ^ 31"

text \<open>
  Signed multiplication of two \<^verbatim>\<open>int\<close> values: an overflow is undefined
  behaviour, modelled as \<open>None\<close>.
\<close>

definition smul :: "int \<Rightarrow> int \<Rightarrow> int option" where
  "smul x y = (if INT_MIN \<le> x * y \<and> x * y \<le> INT_MAX then Some (x * y) else None)"

section \<open>The counters\<close>

subsection \<open>Sequential counter and the library's range count\<close>

text \<open>
  \<^verbatim>\<open>seq_cnt(a, p)\<close> is \<^verbatim>\<open>count_if(a.begin(), a.end(), p)\<close>. A predicate is a pure
  function, as every HOL function is.
\<close>

definition seq_cnt :: "cint list \<Rightarrow> (cint \<Rightarrow> bool) \<Rightarrow> int" where
  "seq_cnt a p = int (length (filter p a))"

text \<open>
  \<^verbatim>\<open>count_if(a.begin() + L, a.begin() + R, p)\<close>: the number of matches among the
  elements with index in \<open>[L, R)\<close>. The iterator pair is a valid range only when
  \<open>0 \<le> L \<le> R \<le> a.size()\<close>; anything else is undefined behaviour (\<open>None\<close>).
\<close>

definition count_between :: "cint list \<Rightarrow> int \<Rightarrow> int \<Rightarrow> (cint \<Rightarrow> bool) \<Rightarrow> int" where
  "count_between a L R p = int (length (filter p (take (nat (R - L)) (drop (nat L) a))))"

definition count_if_range :: "cint list \<Rightarrow> int \<Rightarrow> int \<Rightarrow> (cint \<Rightarrow> bool) \<Rightarrow> int option" where
  "count_if_range a L R p =
     (if 0 \<le> L \<and> L \<le> R \<and> R \<le> int (length a)
      then Some (count_between a L R p)
      else None)"

subsection \<open>Partitioned counter\<close>

text \<open>
  A worker thread is the closure \<^verbatim>\<open>[&, L, R, k]\<close>: it holds its two bounds and the
  index of its slot in \<^verbatim>\<open>partial\<close> by value.
\<close>

record worker =
  cap_L :: int
  cap_R :: int
  cap_k :: int

text \<open>
  The bounds of iteration \<open>k\<close>: \<^verbatim>\<open>int L = (1LL * n * k) / K\<close> and
  \<^verbatim>\<open>int R = (1LL * n * (k + 1)) / K\<close>. The products are formed in \<^verbatim>\<open>long long\<close>
  and cannot overflow there (both factors are \<^verbatim>\<open>int\<close> values), \<open>/\<close> truncates
  towards zero (\<open>sdiv\<close>), and the quotient is narrowed to \<^verbatim>\<open>int\<close>.
\<close>

definition bound_L :: "int \<Rightarrow> int \<Rightarrow> int \<Rightarrow> int" where
  "bound_L n K k = to_int ((1 * n * k) sdiv K)"

definition bound_R :: "int \<Rightarrow> int \<Rightarrow> int \<Rightarrow> int" where
  "bound_R n K k = to_int ((1 * n * (k + 1)) sdiv K)"

text \<open>The spawning loop \<^verbatim>\<open>for (int k = 0; k < K; k++)\<close>; \<open>th\<close> is the vector of threads.\<close>

function spawn_loop :: "int \<Rightarrow> int \<Rightarrow> int \<Rightarrow> worker list \<Rightarrow> worker list" where
  "spawn_loop n K k th =
     (if k < K
      then spawn_loop n K (k + 1)
             (th @ [\<lparr>cap_L = bound_L n K k, cap_R = bound_R n K k, cap_k = k\<rparr>])
      else th)"
  by pat_completeness auto
termination
  by (relation "measure (\<lambda>(n, K, k, th). nat (K - k))") auto

declare spawn_loop.simps [simp del]

text \<open>
  The body of a worker: \<^verbatim>\<open>partial[k] = count_if(a.begin() + L, a.begin() + R, p)\<close>.
  The workers run concurrently, but each reads only the immutable workload and writes
  only its own slot, and the caller reads \<^verbatim>\<open>partial\<close> only after it has joined every
  thread; the value of \<^verbatim>\<open>partial\<close> after the joins is therefore the same under every
  interleaving, and the model lets each worker take effect at its join (that the
  order of the workers does not matter is \<open>join_order_irrelevant\<close> below). Failure to
  create a thread or to allocate (resource exhaustion) is outside the model. The
  division by \<open>K\<close> is reached only with \<open>K > 1\<close>.
\<close>

definition run_worker :: "cint list \<Rightarrow> (cint \<Rightarrow> bool) \<Rightarrow> worker \<Rightarrow> int list \<Rightarrow> int list option" where
  "run_worker a p w partial =
     (case count_if_range a (cap_L w) (cap_R w) p of
        None \<Rightarrow> None
      | Some c \<Rightarrow>
          if 0 \<le> cap_k w \<and> cap_k w < int (length partial)
          then Some (partial[nat (cap_k w) := c])
          else None)"

fun join_all :: "cint list \<Rightarrow> (cint \<Rightarrow> bool) \<Rightarrow> worker list \<Rightarrow> int list \<Rightarrow> int list option" where
  "join_all a p [] partial = Some partial"
| "join_all a p (w # th) partial =
     (case run_worker a p w partial of
        None \<Rightarrow> None
      | Some partial' \<Rightarrow> join_all a p th partial')"

text \<open>
  \<^verbatim>\<open>my_parallel_cnt(a, p, K)\<close>. The run returns the threads it spawned next to the
  count, so that a statement can speak about them; \<open>None\<close> as count is undefined
  behaviour. The size is narrowed by \<^verbatim>\<open>int n = a.size()\<close>. The summation runs in
  \<^verbatim>\<open>long long\<close> over counts that add up to at most the size of the workload.
\<close>

definition my_parallel_run :: "cint list \<Rightarrow> (cint \<Rightarrow> bool) \<Rightarrow> int \<Rightarrow> worker list \<times> int option" where
  "my_parallel_run a p K =
     (let n = to_int (int (length a)) in
      if K \<le> 1 then ([], Some (seq_cnt a p))
      else
        (let partial = replicate (nat K) 0;
             th = spawn_loop n K 0 []
         in (th,
             case join_all a p th partial of
               None \<Rightarrow> None
             | Some partial' \<Rightarrow> Some (fold (\<lambda>x s. s + x) partial' 0))))"

definition my_parallel_cnt :: "cint list \<Rightarrow> (cint \<Rightarrow> bool) \<Rightarrow> int \<Rightarrow> int option" where
  "my_parallel_cnt a p K = snd (my_parallel_run a p K)"

text \<open>The light predicate of \<^verbatim>\<open>main\<close>: \<^verbatim>\<open>(x & 1) == 0\<close>.\<close>

definition pred_light :: "cint \<Rightarrow> bool" where
  "pred_light x = (x AND 1 = 0)"

section \<open>Effects: outcomes, the environment and the output\<close>

text \<open>
  A computation with effects maps a state to an outcome: it returns a value and a new
  state, or it leaves by an exception (the state at the \<^verbatim>\<open>throw\<close> is kept, a handler
  may go on from it), or its behaviour is undefined.
\<close>

datatype ('a, 's) outcome = Ok 'a 's | Raise 's | Undef

definition then_do :: "('a, 's) outcome \<Rightarrow> ('a \<Rightarrow> 's \<Rightarrow> ('b, 's) outcome) \<Rightarrow> ('b, 's) outcome" where
  "then_do m f = (case m of Ok v s \<Rightarrow> f v s | Raise s \<Rightarrow> Raise s | Undef \<Rightarrow> Undef)"

text \<open>
  What the program takes from outside its source: the steady clock, the number of
  hardware threads, the two library execution policies, the random-number library and
  the floating-point arithmetic of the heavy predicate. They are parameters. \<open>'x\<close> is
  the state of the outside world, \<open>'g\<close> the state of the generator.
  \<^item> \<open>clk_now\<close>: \<^verbatim>\<open>steady_clock::now()\<close>, the reading as a 64-bit count of ticks;
  \<^item> \<open>hardware_concurrency\<close>: \<^verbatim>\<open>thread::hardware_concurrency()\<close>, an unsigned value;
  \<^item> \<open>count_if_par\<close>, \<open>count_if_par_unseq\<close>: \<^verbatim>\<open>count_if\<close> under
    \<^verbatim>\<open>execution::par\<close> and \<^verbatim>\<open>execution::par_unseq\<close>, which may throw;
  \<^item> \<open>rng_seed\<close>: the constructor of \<^verbatim>\<open>mt19937_64\<close>; \<open>draw\<close>: one call \<^verbatim>\<open>d(rng)\<close> of
    \<^verbatim>\<open>uniform_int_distribution<int> d(0, 1'000'000)\<close>, a function of the state of the
    generator (the distribution keeps no state of its own between calls);
  \<^item> \<open>pred_heavy\<close>: the heavy predicate, a pure function whose double arithmetic is
    not modelled.
\<close>

record ('x, 'g) env =
  clk_now :: "'x \<Rightarrow> 64 word \<times> 'x"
  hardware_concurrency :: "'x \<Rightarrow> nat"
  count_if_par :: "cint list \<Rightarrow> (cint \<Rightarrow> bool) \<Rightarrow> 'x \<Rightarrow> (int, 'x) outcome"
  count_if_par_unseq :: "cint list \<Rightarrow> (cint \<Rightarrow> bool) \<Rightarrow> 'x \<Rightarrow> (int, 'x) outcome"
  rng_seed :: "nat \<Rightarrow> 'g"
  draw :: "'g \<Rightarrow> cint \<times> 'g"
  pred_heavy :: "cint \<Rightarrow> bool"

text \<open>The lines written to \<^verbatim>\<open>cout\<close>, one constructor for each output statement.\<close>

datatype event =
    CpuThreads nat
  | Rule
  | SizeN int
  | PredName string
  | SeqTime real
  | ParTime real
  | ParNotSupported
  | ParUnseqTime real
  | ParUnseqNotSupported
  | CustomHeader
  | ErrorAtK int
  | KTime int real
  | BestK int real int real
  | Blank

record 'x world =
  out :: "event list"
  ext :: 'x

definition emit :: "event \<Rightarrow> 'x world \<Rightarrow> 'x world" where
  "emit e w = w\<lparr>out := out w @ [e]\<rparr>"

definition now_w :: "('x, 'g) env \<Rightarrow> 'x world \<Rightarrow> 64 word \<times> 'x world" where
  "now_w env w = (case clk_now env (ext w) of (t, x) \<Rightarrow> (t, w\<lparr>ext := x\<rparr>))"

definition lift_ext :: "('x \<Rightarrow> ('a, 'x) outcome) \<Rightarrow> 'x world \<Rightarrow> ('a, 'x world) outcome" where
  "lift_ext f w =
     (case f (ext w) of
        Ok v x \<Rightarrow> Ok v (w\<lparr>ext := x\<rparr>)
      | Raise x \<Rightarrow> Raise (w\<lparr>ext := x\<rparr>)
      | Undef \<Rightarrow> Undef)"

text \<open>A call whose result is thrown away, as in \<^verbatim>\<open>[&]() { par_cnt(a, pred); }\<close>.\<close>

definition discard :: "('a, 's) outcome \<Rightarrow> (unit, 's) outcome" where
  "discard m = (case m of Ok v s \<Rightarrow> Ok () s | Raise s \<Rightarrow> Raise s | Undef \<Rightarrow> Undef)"

section \<open>The timer\<close>

text \<open>
  \<^verbatim>\<open>chrono::duration<double, milli>(t1 - t0).count()\<close>: the difference of two readings
  in milliseconds. A tick is a nanosecond, as in the mainstream standard libraries;
  the rounding of the conversion to \<^verbatim>\<open>double\<close> is not modelled, a time is a real
  number.
\<close>

definition elapsed_ms :: "64 word \<Rightarrow> 64 word \<Rightarrow> real" where
  "elapsed_ms t0 t1 = real_of_int (sint t1 - sint t0) / 1000000"

text \<open>
  The loop of \<^verbatim>\<open>measure\<close>: \<open>now\<close> reads the clock, \<open>fn\<close> is the operation, \<open>t\<close> the
  vector of samples. An exception of the operation leaves the loop.
\<close>

function measure_loop ::
  "('s \<Rightarrow> 64 word \<times> 's) \<Rightarrow> ('s \<Rightarrow> (unit, 's) outcome) \<Rightarrow> int \<Rightarrow> int \<Rightarrow> real list \<Rightarrow> 's
     \<Rightarrow> (real list, 's) outcome" where
  "measure_loop now fn repeats i t s =
     (if i < repeats
      then (case now s of
              (t0, s1) \<Rightarrow>
                (case fn s1 of
                   Ok u s2 \<Rightarrow>
                     (case now s2 of
                        (t1, s3) \<Rightarrow>
                          measure_loop now fn repeats (i + 1) (t @ [elapsed_ms t0 t1]) s3)
                 | Raise s2 \<Rightarrow> Raise s2
                 | Undef \<Rightarrow> Undef))
      else Ok t s)"
  by pat_completeness auto
termination
  by (relation "measure (\<lambda>(now, fn, repeats, i, t, s). nat (repeats - i))") auto

declare measure_loop.simps [simp del]

text \<open>
  \<^verbatim>\<open>measure(fn, repeats)\<close>: sort the samples and return \<^verbatim>\<open>t[t.size() / 2]\<close>. Reading
  a vector at or beyond its size is undefined behaviour.
\<close>

definition measure_timer ::
  "('s \<Rightarrow> 64 word \<times> 's) \<Rightarrow> ('s \<Rightarrow> (unit, 's) outcome) \<Rightarrow> int \<Rightarrow> 's \<Rightarrow> (real, 's) outcome" where
  "measure_timer now fn repeats s =
     (case measure_loop now fn repeats 0 [] s of
        Ok t s' \<Rightarrow>
          if length t div 2 < length t then Ok (sort t ! (length t div 2)) s' else Undef
      | Raise s' \<Rightarrow> Raise s'
      | Undef \<Rightarrow> Undef)"

section \<open>The driver\<close>

subsection \<open>The library policies and their handlers\<close>

definition par_cnt :: "('x, 'g) env \<Rightarrow> cint list \<Rightarrow> (cint \<Rightarrow> bool) \<Rightarrow> 'x world \<Rightarrow> (int, 'x world) outcome" where
  "par_cnt env a p = lift_ext (count_if_par env a p)"

definition par_unseq_cnt :: "('x, 'g) env \<Rightarrow> cint list \<Rightarrow> (cint \<Rightarrow> bool) \<Rightarrow> 'x world \<Rightarrow> (int, 'x world) outcome" where
  "par_unseq_cnt env a p = lift_ext (count_if_par_unseq env a p)"

text \<open>
  The two \<^verbatim>\<open>try\<close> blocks of \<^verbatim>\<open>main\<close>. The result variable and the time are
  initialised before the block (\<^verbatim>\<open>res_par = res_seq\<close>, \<^verbatim>\<open>t_par = -1\<close>); the handler
  \<^verbatim>\<open>catch (...)\<close> prints a line and the run goes on. The block returns the two
  variables.
\<close>

definition par_block ::
  "('x, 'g) env \<Rightarrow> cint list \<Rightarrow> (cint \<Rightarrow> bool) \<Rightarrow> int \<Rightarrow> 'x world \<Rightarrow> (int \<times> real, 'x world) outcome" where
  "par_block env a pred res_seq w =
     (let t_par = - 1; res_par = res_seq in
      case par_cnt env a pred w of
        Raise w1 \<Rightarrow> Ok (res_par, t_par) (emit ParNotSupported w1)
      | Undef \<Rightarrow> Undef
      | Ok r w1 \<Rightarrow>
          (let res_par = r in
           case measure_timer (now_w env) (\<lambda>w'. discard (par_cnt env a pred w')) 7 w1 of
             Raise w2 \<Rightarrow> Ok (res_par, t_par) (emit ParNotSupported w2)
           | Undef \<Rightarrow> Undef
           | Ok t w2 \<Rightarrow> Ok (res_par, t) (emit (ParTime t) w2)))"

definition par_unseq_block ::
  "('x, 'g) env \<Rightarrow> cint list \<Rightarrow> (cint \<Rightarrow> bool) \<Rightarrow> int \<Rightarrow> 'x world \<Rightarrow> (int \<times> real, 'x world) outcome" where
  "par_unseq_block env a pred res_seq w =
     (let t_par_unseq = - 1; res_par_unseq = res_seq in
      case par_unseq_cnt env a pred w of
        Raise w1 \<Rightarrow> Ok (res_par_unseq, t_par_unseq) (emit ParUnseqNotSupported w1)
      | Undef \<Rightarrow> Undef
      | Ok r w1 \<Rightarrow>
          (let res_par_unseq = r in
           case measure_timer (now_w env) (\<lambda>w'. discard (par_unseq_cnt env a pred w')) 7 w1 of
             Raise w2 \<Rightarrow> Ok (res_par_unseq, t_par_unseq) (emit ParUnseqNotSupported w2)
           | Undef \<Rightarrow> Undef
           | Ok t w2 \<Rightarrow> Ok (res_par_unseq, t) (emit (ParUnseqTime t) w2)))"

subsection \<open>The candidate thread counts\<close>

text \<open>\<^verbatim>\<open>int hw = max(1u, thread::hardware_concurrency())\<close>.\<close>

definition hw_of :: "nat \<Rightarrow> int" where
  "hw_of hc = to_int (int (max 1 hc))"

text \<open>
  \<^verbatim>\<open>for (int k = 2; k <= hw * 2; k *= 2) Ks.push_back(k)\<close>. Both products are
  \<^verbatim>\<open>int\<close> products. \<open>None\<close> stands for undefined behaviour and for a loop that
  does not end.
\<close>

partial_function (option) push_loop :: "int \<Rightarrow> int \<Rightarrow> int list \<Rightarrow> int list option" where
  "push_loop hw k Ks =
     (case smul hw 2 of
        None \<Rightarrow> None
      | Some hw2 \<Rightarrow>
          if k \<le> hw2
          then (case smul k 2 of
                  None \<Rightarrow> None
                | Some k' \<Rightarrow> push_loop hw k' (Ks @ [k]))
          else Some Ks)"

declare push_loop.simps [code]

text \<open>
  The list \<^verbatim>\<open>Ks\<close> after \<^verbatim>\<open>sort\<close> and \<^verbatim>\<open>erase(unique(...))\<close>, together with
  \<^verbatim>\<open>hw\<close>; \<^verbatim>\<open>unique\<close> removes adjacent duplicates.
\<close>

definition candidate_Ks :: "nat \<Rightarrow> (int \<times> int list) option" where
  "candidate_Ks hc =
     (let hw = hw_of hc in
      case push_loop hw 2 [1, 2, 4, 8, 16, 32, 64] of
        None \<Rightarrow> None
      | Some Ks \<Rightarrow> Some (hw, remdups_adj (sort Ks)))"

subsection \<open>The sweep\<close>

text \<open>\<^verbatim>\<open>double bestT = 1e300\<close>.\<close>

definition bestT_init :: real where
  "bestT_init = 10 ^ 300"

text \<open>\<^verbatim>\<open>if (t < bestT) bestT = t, bestK = K\<close>, on the pair \<open>(bestT, bestK)\<close>.\<close>

definition best_step :: "int \<times> real \<Rightarrow> real \<times> int \<Rightarrow> real \<times> int" where
  "best_step obs best = (if snd obs < fst best then (snd obs, fst obs) else best)"

text \<open>
  The loop \<^verbatim>\<open>for (int K : Ks)\<close>. It is written for a counting strategy \<open>cnt\<close>, which
  maps a thread count to a count; \<^verbatim>\<open>main\<close> runs it with
  \<open>my_parallel_cnt a pred\<close>. The strategy is called once for the result and then,
  inside the timer, seven times more.
\<close>

fun sweep_loop ::
  "('x, 'g) env \<Rightarrow> (int \<Rightarrow> int option) \<Rightarrow> int \<Rightarrow> int list \<Rightarrow> real \<times> int \<Rightarrow> 'x world
     \<Rightarrow> (real \<times> int, 'x world) outcome" where
  "sweep_loop env cnt res_seq [] best w = Ok best w"
| "sweep_loop env cnt res_seq (K # Ks) best w =
     (case cnt K of
        None \<Rightarrow> Undef
      | Some res \<Rightarrow>
          (case measure_timer (now_w env)
                  (\<lambda>w'. case cnt K of None \<Rightarrow> Undef | Some r \<Rightarrow> Ok () w') 7 w of
             Ok t w1 \<Rightarrow>
               (let best' = best_step (K, t) best;
                    w2 = (if res \<noteq> res_seq then emit (ErrorAtK K) w1 else w1);
                    w3 = emit (KTime K t) w2
                in sweep_loop env cnt res_seq Ks best' w3)
           | Raise w1 \<Rightarrow> Raise w1
           | Undef \<Rightarrow> Undef))"

definition custom_sweep ::
  "('x, 'g) env \<Rightarrow> (int \<Rightarrow> int option) \<Rightarrow> int \<Rightarrow> 'x world \<Rightarrow> (unit, 'x world) outcome" where
  "custom_sweep env cnt res_seq w =
     (let w1 = emit CustomHeader w in
      case candidate_Ks (hardware_concurrency env (ext w1)) of
        None \<Rightarrow> Undef
      | Some (hw, Ks) \<Rightarrow>
          then_do (sweep_loop env cnt res_seq Ks (bestT_init, 1) w1)
            (\<lambda>best w2.
               Ok () (emit (BestK (snd best) (fst best) hw
                              (real_of_int (snd best) / real_of_int hw)) w2)))"

subsection \<open>One predicate, one size, the whole run\<close>

definition pred_body ::
  "('x, 'g) env \<Rightarrow> cint list \<Rightarrow> string \<times> (cint \<Rightarrow> bool) \<Rightarrow> 'x world \<Rightarrow> (unit, 'x world) outcome" where
  "pred_body env a pp w =
     (let w1 = emit (PredName (fst pp)) w;
          pred = snd pp;
          res_seq = seq_cnt a pred
      in then_do (measure_timer (now_w env) (\<lambda>w'. Ok () w') 7 w1)
           (\<lambda>t_seq w2.
              then_do (par_block env a pred res_seq (emit (SeqTime t_seq) w2))
                (\<lambda>rp w3.
                   then_do (par_unseq_block env a pred res_seq w3)
                     (\<lambda>ru w4. custom_sweep env (my_parallel_cnt a pred) res_seq w4))))"

fun preds_loop ::
  "('x, 'g) env \<Rightarrow> cint list \<Rightarrow> (string \<times> (cint \<Rightarrow> bool)) list \<Rightarrow> 'x world \<Rightarrow> (unit, 'x world) outcome" where
  "preds_loop env a [] w = Ok () w"
| "preds_loop env a (pp # pps) w =
     then_do (pred_body env a pp w) (\<lambda>u w'. preds_loop env a pps w')"

text \<open>
  \<^verbatim>\<open>vector<int> a(N); for (int& x : a) x = d(rng);\<close> The generator is the one
  object \<^verbatim>\<open>rng\<close> of \<^verbatim>\<open>main\<close>; its state is threaded through the fills.
\<close>

fun fill :: "('g \<Rightarrow> cint \<times> 'g) \<Rightarrow> cint list \<Rightarrow> 'g \<Rightarrow> cint list \<times> 'g" where
  "fill d [] g = ([], g)"
| "fill d (x # xs) g =
     (case d g of (v, g1) \<Rightarrow> (case fill d xs g1 of (ys, g2) \<Rightarrow> (v # ys, g2)))"

fun sizes_loop ::
  "('x, 'g) env \<Rightarrow> (string \<times> (cint \<Rightarrow> bool)) list \<Rightarrow> int list \<Rightarrow> 'g \<Rightarrow> 'x world
     \<Rightarrow> (unit, 'x world) outcome" where
  "sizes_loop env preds [] rng w = Ok () w"
| "sizes_loop env preds (N # Ns) rng w =
     (case fill (draw env) (replicate (nat N) 0) rng of
        (a, rng') \<Rightarrow>
          then_do (preds_loop env a preds (emit (SizeN N) (emit Rule w)))
            (\<lambda>u w'. sizes_loop env preds Ns rng' (emit Blank w')))"

definition main :: "('x, 'g) env \<Rightarrow> 'x world \<Rightarrow> (unit, 'x world) outcome" where
  "main env w =
     (let w1 = emit (CpuThreads (hardware_concurrency env (ext w))) w;
          Ns = [100000, 1000000, 5000000];
          rng = rng_seed env 123456;
          preds = [(''light'', pred_light), (''heavy'', pred_heavy env)]
      in sizes_loop env preds Ns rng w1)"

section \<open>Reading a run\<close>

text \<open>
  What a statement reads off the output: the \<open>(K, time)\<close> observations of the lines
  \<^verbatim>\<open>K=... time=...\<close> and the thread counts of the lines \<^verbatim>\<open>ERROR: incorrect result\<close>,
  in the order they were written. \<open>since w w'\<close> is what a run from \<open>w\<close> to \<open>w'\<close> wrote.
\<close>

fun timing_of :: "event \<Rightarrow> (int \<times> real) list" where
  "timing_of (KTime K t) = [(K, t)]"
| "timing_of e = []"

definition timings :: "event list \<Rightarrow> (int \<times> real) list" where
  "timings es = concat (map timing_of es)"

fun error_of :: "event \<Rightarrow> int list" where
  "error_of (ErrorAtK K) = [K]"
| "error_of e = []"

definition errors :: "event list \<Rightarrow> int list" where
  "errors es = concat (map error_of es)"

definition since :: "'x world \<Rightarrow> 'x world \<Rightarrow> event list" where
  "since w w' = drop (length (out w)) (out w')"

text \<open>
  The timer around an operation that returns and leaves the outside world alone, as
  the counters do: the median and the state of the world after the seven runs.
\<close>

definition quiet_timer :: "('x, 'g) env \<Rightarrow> 'x \<Rightarrow> real \<times> 'x" where
  "quiet_timer env x =
     (case measure_timer (clk_now env) (\<lambda>x'. Ok () x') 7 x of
        Ok t x' \<Rightarrow> (t, x')
      | Raise x' \<Rightarrow> (0, x')
      | Undef \<Rightarrow> (0, x))"

text \<open>The medians of a sweep over \<open>Ks\<close> and the state of the world after it.\<close>

fun sweep_times :: "('x, 'g) env \<Rightarrow> int list \<Rightarrow> 'x \<Rightarrow> real list \<times> 'x" where
  "sweep_times env [] x = ([], x)"
| "sweep_times env (K # Ks) x =
     (case quiet_timer env x of
        (t, x1) \<Rightarrow> (case sweep_times env Ks x1 of (ts, x2) \<Rightarrow> (t # ts, x2)))"

text \<open>The lines the sweep writes for one thread count.\<close>

definition sweep_lines :: "(int \<Rightarrow> int option) \<Rightarrow> int \<Rightarrow> int \<times> real \<Rightarrow> event list" where
  "sweep_lines cnt res_seq obs =
     (if cnt (fst obs) \<noteq> Some res_seq then [ErrorAtK (fst obs)] else []) @ [KTime (fst obs) (snd obs)]"

section \<open>The workloads of a run\<close>

text \<open>
  The successive values of the vector \<^verbatim>\<open>a\<close> in the loop over the sizes, as the
  generator state \<open>g\<close> and the distribution \<open>d\<close> determine them, and the same loop run
  over given workloads.
\<close>

fun workloads :: "('g \<Rightarrow> cint \<times> 'g) \<Rightarrow> int list \<Rightarrow> 'g \<Rightarrow> cint list list" where
  "workloads d [] g = []"
| "workloads d (N # Ns) g =
     (case fill d (replicate (nat N) 0) g of (a, g') \<Rightarrow> a # workloads d Ns g')"

fun sizes_run ::
  "('x, 'g) env \<Rightarrow> (string \<times> (cint \<Rightarrow> bool)) list \<Rightarrow> (int \<times> cint list) list \<Rightarrow> 'x world
     \<Rightarrow> (unit, 'x world) outcome" where
  "sizes_run env preds [] w = Ok () w"
| "sizes_run env preds (Na # rest) w =
     then_do (preds_loop env (snd Na) preds (emit (SizeN (fst Na)) (emit Rule w)))
       (\<lambda>u w'. sizes_run env preds rest (emit Blank w'))"

section \<open>Workers in any order\<close>

text \<open>
  A worker is in order for a workload and a vector of \<open>m\<close> slots when its range lies
  within the workload and its slot within the vector. \<open>store_count\<close> is its effect on
  \<^verbatim>\<open>partial\<close>.
\<close>

definition worker_ok :: "cint list \<Rightarrow> nat \<Rightarrow> worker \<Rightarrow> bool" where
  "worker_ok a m w \<longleftrightarrow>
     0 \<le> cap_L w \<and> cap_L w \<le> cap_R w \<and> cap_R w \<le> int (length a)
     \<and> 0 \<le> cap_k w \<and> cap_k w < int m"

definition store_count :: "cint list \<Rightarrow> (cint \<Rightarrow> bool) \<Rightarrow> worker \<Rightarrow> int list \<Rightarrow> int list" where
  "store_count a p w partial = partial[nat (cap_k w) := count_between a (cap_L w) (cap_R w) p]"

section \<open>Counting the invocations of an operation\<close>

text \<open>
  An operation and a clock instrumented with a counter: the state is paired with the
  number of invocations so far, every invocation of the operation raises the counter
  by one (also one that throws), and a clock reading leaves it alone. On the first
  component the instrumented run is the run itself.
\<close>

definition counting :: "('s \<Rightarrow> (unit, 's) outcome) \<Rightarrow> 's \<times> nat \<Rightarrow> (unit, 's \<times> nat) outcome" where
  "counting fn sc =
     (case fn (fst sc) of
        Ok u s' \<Rightarrow> Ok () (s', Suc (snd sc))
      | Raise s' \<Rightarrow> Raise (s', Suc (snd sc))
      | Undef \<Rightarrow> Undef)"

definition counting_now :: "('s \<Rightarrow> 64 word \<times> 's) \<Rightarrow> 's \<times> nat \<Rightarrow> 64 word \<times> ('s \<times> nat)" where
  "counting_now now sc = (case now (fst sc) of (t, s') \<Rightarrow> (t, (s', snd sc)))"

section \<open>An example environment\<close>

text \<open>
  A small environment on which the definitions can be run. The state of the world is
  the number of clock readings so far. The clock is monotone; a reading taken after an
  operation is later than the one before it by 50, 30, 12 and 15 milliseconds for the
  first four timers (of fourteen readings each), and so on in turn. There are four
  hardware threads, the policy \<^verbatim>\<open>par\<close> is not supported and \<^verbatim>\<open>par_unseq\<close> is.
\<close>

definition demo_clock :: "nat \<Rightarrow> nat" where
  "demo_clock x =
     ((x div 2) * 100 + (if odd x then [50, 30, 12, 15] ! ((x div 14) mod 4) else 0)) * 1000000"

definition demo_env :: "(nat, nat) env" where
  "demo_env =
     \<lparr>clk_now = (\<lambda>x. (word_of_nat (demo_clock x), Suc x)),
      hardware_concurrency = (\<lambda>x. 4),
      count_if_par = (\<lambda>a p x. Raise x),
      count_if_par_unseq = (\<lambda>a p x. Ok (seq_cnt a p) x),
      rng_seed = (\<lambda>n. n),
      draw = (\<lambda>g. (word_of_nat g, Suc g)),
      pred_heavy = (\<lambda>v. False)\<rparr>"

section \<open>Arithmetic of the partition bounds\<close>

lemma to_int_id: "- (2 ^ 31) \<le> v \<Longrightarrow> v < 2 ^ 31 \<Longrightarrow> to_int v = v"
  by (simp add: to_int_def)

lemma sdiv_nonneg: "0 \<le> a \<Longrightarrow> 0 < b \<Longrightarrow> a sdiv b = a div (b::int)"
  by (cases "a = 0") (simp_all add: signed_divide_int_def)

lemma plan_div_bounds:
  assumes "0 \<le> n" "0 < K" "0 \<le> k" "k \<le> K"
  shows "0 \<le> n * k div K" "n * k div K \<le> (n::int)"
proof -
  from assms show "0 \<le> n * k div K"
    by (simp add: pos_imp_zdiv_nonneg_iff)
  have "n * k \<le> n * K" using assms by (simp add: mult_left_mono)
  then have "n * k div K \<le> n * K div K" by (rule zdiv_mono1) (use assms in simp)
  then show "n * k div K \<le> n" using assms by simp
qed

lemma plan_div_mono:
  assumes "0 \<le> n" "0 < K" "j \<le> k"
  shows "n * j div K \<le> n * k div (K::int)"
proof -
  have "n * j \<le> n * k" using assms by (simp add: mult_left_mono)
  then show ?thesis by (rule zdiv_mono1) (use assms in simp)
qed

lemma bound_L_eq:
  assumes "0 \<le> n" "n \<le> INT_MAX" "0 < K" "0 \<le> k" "k \<le> K"
  shows "bound_L n K k = n * k div K"
proof -
  have "0 \<le> n * k" using assms by simp
  then have "(1 * n * k) sdiv K = n * k div K" using assms by (simp add: sdiv_nonneg)
  moreover have "0 \<le> n * k div K" "n * k div K \<le> n"
    using assms by (auto intro!: plan_div_bounds)
  ultimately show ?thesis using assms by (simp add: bound_L_def to_int_id INT_MAX_def)
qed

lemma bound_R_eq:
  assumes "0 \<le> n" "n \<le> INT_MAX" "0 < K" "0 \<le> k" "k < K"
  shows "bound_R n K k = n * (k + 1) div K"
proof -
  have "0 \<le> n * (k + 1)" using assms by simp
  then have "(1 * n * (k + 1)) sdiv K = n * (k + 1) div K" using assms by (simp add: sdiv_nonneg)
  moreover have "0 \<le> n * (k + 1) div K" "n * (k + 1) div K \<le> n"
    using assms by (auto intro!: plan_div_bounds)
  ultimately show ?thesis using assms by (simp add: bound_R_def to_int_id INT_MAX_def)
qed

lemma cover_exists:
  assumes "0 \<le> i" "i < N * int m div K"
  shows "\<exists>k<m. N * int k div K \<le> i \<and> i < N * (int k + 1) div K"
  using assms(2)
proof (induction m)
  case 0
  with assms(1) show ?case by simp
next
  case (Suc m)
  show ?case
  proof (cases "i < N * int m div K")
    case True
    then obtain k where "k < m" "N * int k div K \<le> i \<and> i < N * (int k + 1) div K"
      using Suc.IH by blast
    then show ?thesis using less_Suc_eq by blast
  next
    case False
    then have "N * int m div K \<le> i \<and> i < N * (int m + 1) div K"
      using Suc.prems by (simp add: add.commute)
    then show ?thesis by blast
  qed
qed

section \<open>The spawning loop and the joins\<close>

lemma spawn_loop_eq:
  "spawn_loop n K k th =
   th @ map (\<lambda>k. \<lparr>cap_L = bound_L n K k, cap_R = bound_R n K k, cap_k = k\<rparr>) [k..K - 1]"
proof (induction n K k th rule: spawn_loop.induct)
  case (1 n K k th)
  show ?case
  proof (cases "k < K")
    case True
    then have "[k..K - 1] = k # [k + 1..K - 1]" by (simp add: upto_rec1)
    with True 1 show ?thesis by (subst spawn_loop.simps) simp
  next
    case False
    then show ?thesis by (subst spawn_loop.simps) simp
  qed
qed

lemma upto_as_upt: "[0..int m - 1] = map int [0..<m]"
proof (induction m)
  case 0
  then show ?case by simp
next
  case (Suc m)
  have "[0..int (Suc m) - 1] = [0..int m - 1] @ [int m]"
    using upto_rec2 [of 0 "int m"] by simp
  with Suc show ?case by simp
qed

lemma spawn_loop_plan:
  assumes "0 \<le> K"
  shows "spawn_loop n K 0 [] =
         map (\<lambda>k. \<lparr>cap_L = bound_L n K k, cap_R = bound_R n K k, cap_k = k\<rparr>) (map int [0..<nat K])"
proof -
  have "[0..K - 1] = map int [0..<nat K]"
    using upto_as_upt [of "nat K"] assms by simp
  then show ?thesis by (simp add: spawn_loop_eq)
qed

lemma spawn_two: "spawn_loop n 2 0 [] =
   [\<lparr>cap_L = bound_L n 2 0, cap_R = bound_R n 2 0, cap_k = 0\<rparr>,
    \<lparr>cap_L = bound_L n 2 1, cap_R = bound_R n 2 1, cap_k = 1\<rparr>]"
proof -
  have "[0..1] = [0, 1::int]" by (simp add: upto_rec1)
  then show ?thesis by (simp add: spawn_loop_eq)
qed

lemma plan_length: "0 \<le> K \<Longrightarrow> length (spawn_loop N K 0 []) = nat K"
  by (simp add: spawn_loop_plan)

lemma plan_nth:
  assumes N: "0 \<le> N" "N \<le> INT_MAX" and K: "1 \<le> K" and k: "k < nat K"
  shows "spawn_loop N K 0 [] ! k =
         \<lparr>cap_L = N * int k div K, cap_R = N * (int k + 1) div K, cap_k = int k\<rparr>"
proof -
  have K0: "0 \<le> K" "0 < K" using K by simp_all
  have kK: "0 \<le> int k" "int k < K" "int k \<le> K" using k by simp_all
  show ?thesis
    using k by (simp add: spawn_loop_plan [OF K0(1)] bound_L_eq [OF N K0(2) kK(1) kK(3)]
                  bound_R_eq [OF N K0(2) kK(1) kK(2)])
qed

lemma fold_add_sum_list: "fold (\<lambda>x s. s + x) xs (acc::int) = acc + sum_list xs"
  by (induction xs arbitrary: acc) simp_all

lemma join_all_append:
  "join_all a p (xs @ ys) part =
     (case join_all a p xs part of None \<Rightarrow> None | Some part' \<Rightarrow> join_all a p ys part')"
  by (induction xs arbitrary: part) (simp_all split: option.splits)

lemma take_filter_split:
  assumes "L \<le> R"
  shows "length (filter p (take R a)) =
         length (filter p (take L a)) + length (filter p (take (R - L) (drop L a)))"
proof -
  have "take R a = take L a @ take (R - L) (drop L a)"
    using assms take_add [of L "R - L" a] by simp
  then show ?thesis by simp
qed

text \<open>
  After the joins of the first \<open>m\<close> workers the first \<open>m\<close> slots hold the counts of
  their ranges and the others are still zero.
\<close>

lemma join_all_plan:
  assumes n: "n = int (length a)" "n \<le> INT_MAX" and K: "0 < K" and m: "int m \<le> K"
  shows "join_all a p
           (map (\<lambda>k. \<lparr>cap_L = bound_L n K k, cap_R = bound_R n K k, cap_k = k\<rparr>) (map int [0..<m]))
           (replicate (nat K) 0)
         = Some (map (\<lambda>j. count_between a (n * int j div K) (n * (int j + 1) div K) p) [0..<m]
                 @ replicate (nat K - m) 0)"
  using m
proof (induction m)
  case 0
  then show ?case by simp
next
  case (Suc m)
  let ?c = "\<lambda>j. count_between a (n * int j div K) (n * (int j + 1) div K) p"
  have mK: "int m < K" "int m \<le> K" using Suc.prems by simp_all
  have n0: "0 \<le> n" using n by simp
  have L: "bound_L n K (int m) = n * int m div K"
    using n0 n K mK by (simp add: bound_L_eq)
  have R: "bound_R n K (int m) = n * (int m + 1) div K"
    using n0 n K mK by (simp add: bound_R_eq)
  have b1: "0 \<le> n * int m div K"
    using n0 K mK by (auto intro!: plan_div_bounds)
  have b2: "n * int m div K \<le> n * (int m + 1) div K"
    using n0 K by (auto intro!: plan_div_mono)
  have b3: "n * (int m + 1) div K \<le> n"
    using n0 K mK by (auto intro!: plan_div_bounds)
  have cr: "count_if_range a (n * int m div K) (n * (int m + 1) div K) p = Some (?c m)"
    using b1 b2 b3 n by (simp add: count_if_range_def)
  have rep: "replicate (nat K - m) (0::int) = 0 # replicate (nat K - Suc m) 0"
    using mK by (cases "nat K - m") auto
  have upd: "(map ?c [0..<m] @ replicate (nat K - m) 0)[m := ?c m]
             = map ?c [0..<Suc m] @ replicate (nat K - Suc m) 0"
    by (simp add: list_update_append rep)
  have "run_worker a p \<lparr>cap_L = bound_L n K (int m), cap_R = bound_R n K (int m), cap_k = int m\<rparr>
          (map ?c [0..<m] @ replicate (nat K - m) 0)
        = Some (map ?c [0..<Suc m] @ replicate (nat K - Suc m) 0)"
    using cr upd mK K by (simp add: run_worker_def L R)
  then show ?case
    using Suc.IH [OF mK(2)] by (simp add: join_all_append)
qed

text \<open>The counts of the first \<open>m\<close> ranges add up to the count of the prefix they cover.\<close>

lemma sum_chunks:
  assumes n: "n = int (length a)" and K: "0 < K" and m: "int m \<le> K"
  shows "sum_list (map (\<lambda>j. count_between a (n * int j div K) (n * (int j + 1) div K) p) [0..<m])
         = int (length (filter p (take (nat (n * int m div K)) a)))"
  using m
proof (induction m)
  case 0
  then show ?case by simp
next
  case (Suc m)
  have mK: "int m < K" "int m \<le> K" using Suc.prems by simp_all
  have n0: "0 \<le> n" using n by simp
  have b1: "0 \<le> n * int m div K"
    using n0 K mK by (auto intro!: plan_div_bounds)
  have b2: "n * int m div K \<le> n * (int m + 1) div K"
    using n0 K by (auto intro!: plan_div_mono)
  have le: "nat (n * int m div K) \<le> nat (n * (int m + 1) div K)"
    using b1 b2 by simp
  have cb: "count_between a (n * int m div K) (n * (int m + 1) div K) p
        = int (length (filter p (take (nat (n * (int m + 1) div K) - nat (n * int m div K))
                                   (drop (nat (n * int m div K)) a))))"
    using b1 b2 by (simp add: count_between_def nat_diff_distrib)
  have "sum_list (map (\<lambda>j. count_between a (n * int j div K) (n * (int j + 1) div K) p) [0..<Suc m])
        = int (length (filter p (take (nat (n * int m div K)) a)))
          + count_between a (n * int m div K) (n * (int m + 1) div K) p"
    using Suc.IH [OF mK(2)] by simp
  also have "\<dots> = int (length (filter p (take (nat (n * (int m + 1) div K)) a)))"
    unfolding cb using take_filter_split [OF le, of p a] by linarith
  finally show ?case by (simp add: algebra_simps)
qed

lemma my_parallel_cnt_in_range:
  assumes len: "int (length a) \<le> INT_MAX" and K: "1 \<le> K"
  shows "my_parallel_cnt a p K = Some (seq_cnt a p)"
proof (cases "K \<le> 1")
  case True
  then show ?thesis by (simp add: my_parallel_cnt_def my_parallel_run_def Let_def)
next
  case False
  define n where "n = int (length a)"
  have n: "to_int (int (length a)) = n"
    using len by (simp add: n_def to_int_id INT_MAX_def)
  have K0: "0 < K" "0 \<le> K" "int (nat K) \<le> K" using K by simp_all
  have nn: "n = int (length a)" "n \<le> INT_MAX" using len by (simp_all add: n_def)
  have j: "join_all a p (spawn_loop n K 0 []) (replicate (nat K) 0)
           = Some (map (\<lambda>j. count_between a (n * int j div K) (n * (int j + 1) div K) p) [0..<nat K])"
    using join_all_plan [OF nn K0(1) K0(3), of p] by (simp add: spawn_loop_plan [OF K0(2)])
  have "sum_list (map (\<lambda>j. count_between a (n * int j div K) (n * (int j + 1) div K) p) [0..<nat K])
        = int (length (filter p (take (nat (n * int (nat K) div K)) a)))"
    by (rule sum_chunks [OF nn(1) K0(1) K0(3)])
  also have "\<dots> = seq_cnt a p"
    using K0 by (simp add: seq_cnt_def n_def)
  finally show ?thesis
    using False j by (simp add: my_parallel_cnt_def my_parallel_run_def Let_def n fold_add_sum_list)
qed

lemma my_parallel_run_threads:
  "1 < K \<Longrightarrow> fst (my_parallel_run a p K) = spawn_loop (to_int (int (length a))) K 0 []"
  by (simp add: my_parallel_run_def Let_def)

lemma replicate_two: "replicate 2 (0::int) = [0, 0]"
  by (simp add: numeral_2_eq_2)

section \<open>The joins in any order\<close>

lemma join_all_fold:
  assumes "\<forall>w \<in> set ws. worker_ok a (length partial) w"
  shows "join_all a p ws partial = Some (fold (store_count a p) ws partial)"
  using assms
proof (induction ws arbitrary: partial)
  case Nil
  then show ?case by simp
next
  case (Cons w ws)
  have r: "run_worker a p w partial = Some (store_count a p w partial)"
    using Cons.prems by (simp add: run_worker_def count_if_range_def worker_ok_def store_count_def)
  have "\<forall>w' \<in> set ws. worker_ok a (length (store_count a p w partial)) w'"
    using Cons.prems by (simp add: store_count_def)
  from Cons.IH [OF this] r show ?case by simp
qed

lemma store_count_commute:
  assumes "0 \<le> cap_k v" "0 \<le> cap_k w" "cap_k v \<noteq> cap_k w"
  shows "store_count a p v \<circ> store_count a p w = store_count a p w \<circ> store_count a p v"
proof
  fix partial
  have "nat (cap_k v) \<noteq> nat (cap_k w)" using assms by simp
  then show "(store_count a p v \<circ> store_count a p w) partial
             = (store_count a p w \<circ> store_count a p v) partial"
    by (simp add: store_count_def list_update_swap)
qed

lemma join_all_permuted:
  assumes ok: "\<forall>w \<in> set ws. worker_ok a (length partial) w"
    and slots: "distinct (map cap_k ws)"
    and perm: "mset ws' = mset ws"
  shows "join_all a p ws' partial = join_all a p ws partial"
proof -
  have s: "set ws' = set ws" using perm by (rule mset_eq_setD)
  have c: "store_count a p v \<circ> store_count a p w = store_count a p w \<circ> store_count a p v"
    if "v \<in> set ws" "w \<in> set ws" for v w
  proof (cases "v = w")
    case True
    then show ?thesis by simp
  next
    case False
    with slots that have "cap_k v \<noteq> cap_k w"
      by (meson distinct_map inj_onD)
    moreover have "0 \<le> cap_k v" "0 \<le> cap_k w" using ok that by (auto simp: worker_ok_def)
    ultimately show ?thesis by (intro store_count_commute)
  qed
  have "fold (store_count a p) ws partial = fold (store_count a p) ws' partial"
    using fold_multiset_equiv [of ws "store_count a p" ws'] c perm by simp
  then show ?thesis
    using ok s by (simp add: join_all_fold)
qed

lemma spawned_workers_ok:
  assumes len: "int (length a) \<le> INT_MAX" and K: "2 \<le> K"
  shows "\<forall>w \<in> set (fst (my_parallel_run a p K)). worker_ok a (nat K) w"
    and "map cap_k (fst (my_parallel_run a p K)) = map int [0..<nat K]"
proof -
  define n where "n = int (length a)"
  define th where "th = fst (my_parallel_run a p K)"
  have n: "to_int (int (length a)) = n" "0 \<le> n" "n \<le> INT_MAX"
    using len by (simp_all add: n_def to_int_id INT_MAX_def)
  have K0: "0 \<le> K" "0 < K" "1 \<le> K" "1 < K" using K by simp_all
  have th: "th = spawn_loop n K 0 []"
    using K0 by (simp add: th_def my_parallel_run_threads n)
  have lenth: "length th = nat K" by (simp add: th plan_length K0)
  have nth: "th ! k = \<lparr>cap_L = n * int k div K, cap_R = n * (int k + 1) div K, cap_k = int k\<rparr>"
    if "k < nat K" for k
    unfolding th using n(2,3) K0(3) that by (rule plan_nth)
  show "\<forall>w \<in> set th. worker_ok a (nat K) w"
  proof
    fix w assume "w \<in> set th"
    then obtain k where k: "k < nat K" "w = th ! k"
      by (auto simp: in_set_conv_nth lenth)
    have kK: "0 \<le> int k" "int k \<le> K" "0 \<le> int k + 1" "int k + 1 \<le> K" using k by simp_all
    have w: "cap_L w = n * int k div K" "cap_R w = n * (int k + 1) div K" "cap_k w = int k"
      using k nth by simp_all
    have b1: "0 \<le> n * int k div K" using n K0 kK by (intro plan_div_bounds) simp_all
    have b2: "n * int k div K \<le> n * (int k + 1) div K" using n K0 by (intro plan_div_mono) simp_all
    have b3: "n * (int k + 1) div K \<le> n" using n K0 kK by (intro plan_div_bounds) simp_all
    show "worker_ok a (nat K) w"
      using b1 b2 b3 kK K0 by (simp add: w worker_ok_def n_def [symmetric])
  qed
  show "map cap_k th = map int [0..<nat K]"
    by (simp add: th spawn_loop_plan [OF K0(1)] comp_def)
qed

section \<open>The timer\<close>

text \<open>
  With an operation that returns, the loop takes \<open>R - i\<close> further samples and invokes
  the operation once for each; \<open>calls\<close> is any reading of the state that an invocation
  raises by one and a clock reading leaves alone.
\<close>

lemma measure_loop_ok:
  assumes "\<forall>s. \<exists>s'. fn s = Ok () s'"
    and "\<forall>s s'. fn s = Ok () s' \<longrightarrow> calls s' = Suc (calls s)"
    and "\<forall>s. calls (snd (now s)) = calls s"
  shows "\<exists>t' s'. measure_loop now fn R i t s = Ok (t @ t') s'
           \<and> length t' = nat (R - i) \<and> calls s' = calls s + nat (R - i)"
  using assms
proof (induction now fn R i t s rule: measure_loop.induct)
  case (1 now fn R i t s)
  have ok: "\<exists>s'. fn s = Ok () s'" for s using "1.prems" by blast
  have cf: "calls s' = Suc (calls s)" if "fn s = Ok () s'" for s s' using "1.prems" that by blast
  have cn: "calls (snd (now s)) = calls s" for s using "1.prems" by blast
  show ?case
  proof (cases "i < R")
    case False
    then show ?thesis by (subst measure_loop.simps) simp
  next
    case True
    obtain t0 s1 where n1: "now s = (t0, s1)" by (cases "now s")
    obtain s2 where f: "fn s1 = Ok () s2" using ok by blast
    obtain t1 s3 where n2: "now s2 = (t1, s3)" by (cases "now s2")
    from "1.IH" [OF True n1 [symmetric] f n2 [symmetric] "1.prems"]
    obtain t' s' where r: "measure_loop now fn R (i + 1) (t @ [elapsed_ms t0 t1]) s3
          = Ok ((t @ [elapsed_ms t0 t1]) @ t') s'"
        "length t' = nat (R - (i + 1))" "calls s' = calls s3 + nat (R - (i + 1))"
      by blast
    have c: "calls s3 = Suc (calls s)"
      using cn [of s] cn [of s2] cf [OF f] n1 n2 by simp
    have "measure_loop now fn R i t s = Ok (t @ (elapsed_ms t0 t1 # t')) s'"
      using True n1 f n2 r(1) by (subst measure_loop.simps) simp
    moreover have "length (elapsed_ms t0 t1 # t') = nat (R - i)"
      using True r(2) by simp
    moreover have "calls s' = calls s + nat (R - i)"
      using True r(3) c by simp
    ultimately show ?thesis by blast
  qed
qed

lemma sort_nth_between:
  fixes t :: "real list"
  assumes "k < length t"
  shows "Min (set t) \<le> sort t ! k" "sort t ! k \<le> Max (set t)"
proof -
  have "sort t ! k \<in> set (sort t)" using assms by (intro nth_mem) simp
  then have m: "sort t ! k \<in> set t" by simp
  show "Min (set t) \<le> sort t ! k" using m by (intro Min_le) simp_all
  show "sort t ! k \<le> Max (set t)" using m by (intro Max_ge) simp_all
qed

text \<open>
  The run with the counter takes the same samples and ends in the same state as the
  run itself, and its counter has risen by the number of repetitions.
\<close>

lemma measure_loop_counting:
  assumes ok: "\<forall>s. \<exists>s'. fn s = Ok () s'"
  shows "\<exists>t' s'. measure_loop now fn R i t s = Ok t' s'
           \<and> length t' = length t + nat (R - i)
           \<and> measure_loop (counting_now now) (counting fn) R i t (s, c)
               = Ok t' (s', c + nat (R - i))"
proof (induction "nat (R - i)" arbitrary: i t s c)
  case 0
  then have "\<not> i < R" by simp
  then show ?case by (simp add: measure_loop.simps [of _ _ R i])
next
  case (Suc n)
  then have lt: "i < R" and n: "n = nat (R - (i + 1))" by simp_all
  obtain t0 s1 where n1: "now s = (t0, s1)" by (cases "now s")
  obtain s2 where f: "fn s1 = Ok () s2" using ok by blast
  obtain t1 s3 where n2: "now s2 = (t1, s3)" by (cases "now s2")
  from Suc.hyps(1) [OF n, of "t @ [elapsed_ms t0 t1]" s3 "Suc c"]
  obtain t' s' where r: "measure_loop now fn R (i + 1) (t @ [elapsed_ms t0 t1]) s3 = Ok t' s'"
      "length t' = length (t @ [elapsed_ms t0 t1]) + nat (R - (i + 1))"
      "measure_loop (counting_now now) (counting fn) R (i + 1) (t @ [elapsed_ms t0 t1]) (s3, Suc c)
         = Ok t' (s', Suc c + nat (R - (i + 1)))"
    by blast
  have a: "measure_loop now fn R i t s = Ok t' s'"
    using lt n1 f n2 r(1) by (simp add: measure_loop.simps [of _ _ R i])
  have b: "measure_loop (counting_now now) (counting fn) R i t (s, c)
         = Ok t' (s', Suc c + nat (R - (i + 1)))"
    using lt n1 f n2 r(3)
    by (simp add: measure_loop.simps [of _ _ R i] counting_now_def counting_def)
  have "Suc c + nat (R - (i + 1)) = c + nat (R - i)" using lt by simp
  moreover have "length t' = length t + nat (R - i)" using lt r(2) by simp
  ultimately show ?case using a b by simp
qed

text \<open>Every sample, and so every median, is below the initial \<^verbatim>\<open>bestT\<close>.\<close>

lemma elapsed_ms_bound: "elapsed_ms t0 t1 < bestT_init"
proof -
  have "sint t1 < 2 ^ 63" using sint_lt [of t1] by simp
  moreover have "- (2 ^ 63) \<le> sint t0" using sint_ge [of t0] by simp
  ultimately have "sint t1 - sint t0 < 2 ^ 64" by simp
  then have "real_of_int (sint t1 - sint t0) < 2 ^ 64"
    by (metis of_int_less_iff of_int_numeral of_int_power)
  then have "elapsed_ms t0 t1 < 2 ^ 64 / 1000000"
    by (simp add: elapsed_ms_def divide_strict_right_mono)
  also have "\<dots> < (10::real) ^ 300" by simp
  finally show ?thesis by (simp add: bestT_init_def)
qed

lemma measure_loop_samples:
  assumes "measure_loop now fn R i t s = Ok t' s'" and "\<forall>v \<in> set t. v < bestT_init"
  shows "\<forall>v \<in> set t'. v < bestT_init"
  using assms
proof (induction now fn R i t s rule: measure_loop.induct)
  case (1 now fn R i t s)
  show ?case
  proof (cases "i < R")
    case False
    with "1.prems" show ?thesis by (subst (asm) measure_loop.simps) simp
  next
    case True
    obtain t0 s1 where n1: "now s = (t0, s1)" by (cases "now s")
    from "1.prems"(1) True n1 obtain s2 where f: "fn s1 = Ok () s2"
      by (subst (asm) measure_loop.simps) (auto split: outcome.splits)
    obtain t1 s3 where n2: "now s2 = (t1, s3)" by (cases "now s2")
    have r: "measure_loop now fn R (i + 1) (t @ [elapsed_ms t0 t1]) s3 = Ok t' s'"
      using "1.prems"(1) True n1 f n2 by (subst (asm) measure_loop.simps) simp
    have "\<forall>v \<in> set (t @ [elapsed_ms t0 t1]). v < bestT_init"
      using "1.prems"(2) elapsed_ms_bound by simp
    from "1.IH" [OF True n1 [symmetric] f n2 [symmetric] r this] show ?thesis .
  qed
qed

lemma measure_timer_bound:
  assumes "measure_timer now fn R s = Ok m s'"
  shows "m < bestT_init"
proof -
  from assms obtain t where l: "measure_loop now fn R 0 [] s = Ok t s'"
    and k: "length t div 2 < length t" and m: "m = sort t ! (length t div 2)"
    by (auto simp: measure_timer_def split: outcome.splits if_splits)
  have "\<forall>v \<in> set t. v < bestT_init"
    using measure_loop_samples [OF l] by simp
  moreover have "m \<in> set t"
    using k m nth_mem [of "length t div 2" "sort t"] by simp
  ultimately show ?thesis by blast
qed

section \<open>The timer inside the driver, and the sweep\<close>

lemma measure_loop_lift:
  "measure_loop (now_w env) (\<lambda>w'. Ok () w') R i t w =
     (case measure_loop (clk_now env) (\<lambda>x'. Ok () x') R i t (ext w) of
        Ok t' x' \<Rightarrow> Ok t' (w\<lparr>ext := x'\<rparr>)
      | Raise x' \<Rightarrow> Raise (w\<lparr>ext := x'\<rparr>)
      | Undef \<Rightarrow> Undef)"
proof (induction "nat (R - i)" arbitrary: i t w)
  case 0
  then have "\<not> i < R" by simp
  then show ?case
    by (simp add: measure_loop.simps [of _ _ R i])
next
  case (Suc n)
  then have lt: "i < R" and n: "n = nat (R - (i + 1))" by simp_all
  obtain t0 x1 where c1: "clk_now env (ext w) = (t0, x1)" by (cases "clk_now env (ext w)")
  obtain t1 x2 where c2: "clk_now env x1 = (t1, x2)" by (cases "clk_now env x1")
  have l: "measure_loop (now_w env) (\<lambda>w'. Ok () w') R i t w
           = measure_loop (now_w env) (\<lambda>w'. Ok () w') R (i + 1) (t @ [elapsed_ms t0 t1]) (w\<lparr>ext := x2\<rparr>)"
    using lt c1 c2 by (subst measure_loop.simps) (simp add: now_w_def)
  have r: "measure_loop (clk_now env) (\<lambda>x'. Ok () x') R i t (ext w)
           = measure_loop (clk_now env) (\<lambda>x'. Ok () x') R (i + 1) (t @ [elapsed_ms t0 t1]) x2"
    using lt c1 c2 by (subst measure_loop.simps) simp
  show ?case
    unfolding l r using Suc.hyps(1) [OF n, of "t @ [elapsed_ms t0 t1]" "w\<lparr>ext := x2\<rparr>"]
    by (simp split: outcome.splits)
qed


lemma measure_loop_returns:
  assumes "\<forall>s. \<exists>s'. fn s = Ok () s'"
  shows "\<exists>t' s'. measure_loop now fn R i t s = Ok t' s' \<and> length t' = length t + nat (R - i)"
  using assms
proof (induction now fn R i t s rule: measure_loop.induct)
  case (1 now fn R i t s)
  show ?case
  proof (cases "i < R")
    case False
    then show ?thesis by (simp add: measure_loop.simps [of _ _ R i])
  next
    case True
    obtain t0 s1 where n1: "now s = (t0, s1)" by (cases "now s")
    obtain s2 where f: "fn s1 = Ok () s2" using "1.prems" by blast
    obtain t1 s3 where n2: "now s2 = (t1, s3)" by (cases "now s2")
    from "1.IH" [OF True n1 [symmetric] f n2 [symmetric] "1.prems"]
    obtain t' s' where r: "measure_loop now fn R (i + 1) (t @ [elapsed_ms t0 t1]) s3 = Ok t' s'"
        "length t' = length (t @ [elapsed_ms t0 t1]) + nat (R - (i + 1))"
      by blast
    have "measure_loop now fn R i t s = Ok t' s'"
      using True n1 f n2 r(1) by (simp add: measure_loop.simps [of _ _ R i])
    moreover have "length t' = length t + nat (R - i)"
      using True r(2) by simp
    ultimately show ?thesis by blast
  qed
qed

lemma measure_timer_returns:
  assumes "\<forall>s. \<exists>s'. fn s = Ok () s'" and "1 \<le> R"
  shows "\<exists>m s'. measure_timer now fn R s = Ok m s'"
proof -
  from measure_loop_returns [OF assms(1), of now R 0 "[]" s]
  obtain t s' where "measure_loop now fn R 0 [] s = Ok t s'" "length t = nat R"
    by auto
  then show ?thesis using assms(2) by (simp add: measure_timer_def)
qed

lemma quiet_timer_eq:
  "measure_timer (clk_now env) (\<lambda>x'. Ok () x') 7 x
     = Ok (fst (quiet_timer env x)) (snd (quiet_timer env x))"
proof -
  obtain m x' where "measure_timer (clk_now env) (\<lambda>x'. Ok () x') 7 x = Ok m x'"
    using measure_timer_returns [of "\<lambda>x'. Ok () x'" 7 "clk_now env" x] by auto
  then show ?thesis by (simp add: quiet_timer_def)
qed

lemma quiet_timer_bound: "fst (quiet_timer env x) < bestT_init"
  using quiet_timer_eq [of env x] by (rule measure_timer_bound)

lemma measure_timer_lift:
  "measure_timer (now_w env) (\<lambda>w'. Ok () w') 7 w
     = Ok (fst (quiet_timer env (ext w))) (w\<lparr>ext := snd (quiet_timer env (ext w))\<rparr>)"
proof -
  from quiet_timer_eq [of env "ext w"]
  obtain t where l: "measure_loop (clk_now env) (\<lambda>x'. Ok () x') 7 0 [] (ext w)
        = Ok t (snd (quiet_timer env (ext w)))"
    and k: "length t div 2 < length t"
    and m: "fst (quiet_timer env (ext w)) = sort t ! (length t div 2)"
    by (auto simp: measure_timer_def split: outcome.splits if_splits)
  show ?thesis
    using k m by (simp add: measure_timer_def measure_loop_lift l)
qed

lemma sweep_times_length: "length (fst (sweep_times env Ks x)) = length Ks"
proof (induction Ks arbitrary: x)
  case Nil
  then show ?case by simp
next
  case (Cons K Ks)
  obtain t x1 where q: "quiet_timer env x = (t, x1)" by (cases "quiet_timer env x")
  with Cons [of x1] show ?case by (auto split: prod.splits)
qed

lemma sweep_times_bound: "\<forall>t \<in> set (fst (sweep_times env Ks x)). t < bestT_init"
proof (induction Ks arbitrary: x)
  case Nil
  then show ?case by simp
next
  case (Cons K Ks)
  obtain t x1 where q: "quiet_timer env x = (t, x1)" by (cases "quiet_timer env x")
  have "t < bestT_init" using quiet_timer_bound [of env x] q by simp
  with Cons [of x1] q show ?case by (auto split: prod.splits)
qed

text \<open>
  The sweep aborts only when the counting strategy has no value; otherwise it ends with
  the fold of \<open>best_step\<close> over the observations and has written, for each thread
  count in turn, the error line when the result differs and the timing line.
\<close>

lemma sweep_loop_run:
  assumes "\<forall>K \<in> set Ks. cnt K \<noteq> None"
  shows "sweep_loop env cnt res_seq Ks best w =
         Ok (fold best_step (zip Ks (fst (sweep_times env Ks (ext w)))) best)
            (w\<lparr>out := out w @ concat (map (sweep_lines cnt res_seq)
                                         (zip Ks (fst (sweep_times env Ks (ext w))))),
               ext := snd (sweep_times env Ks (ext w))\<rparr>)"
  using assms
proof (induction Ks arbitrary: best w)
  case Nil
  then show ?case by simp
next
  case (Cons K Ks)
  obtain res where c: "cnt K = Some res" using Cons.prems by auto
  obtain t x1 where q: "quiet_timer env (ext w) = (t, x1)" by (cases "quiet_timer env (ext w)")
  obtain ts x2 where s: "sweep_times env Ks x1 = (ts, x2)" by (cases "sweep_times env Ks x1")
  have m: "measure_timer (now_w env) (\<lambda>w'. Ok () w') 7 w = Ok t (w\<lparr>ext := x1\<rparr>)"
    by (simp add: measure_timer_lift q)
  define w3 where "w3 = emit (KTime K t) (if res \<noteq> res_seq then emit (ErrorAtK K) (w\<lparr>ext := x1\<rparr>) else w\<lparr>ext := x1\<rparr>)"
  have e: "ext w3 = x1" and o: "out w3 = out w @ sweep_lines cnt res_seq (K, t)"
    by (simp_all add: w3_def emit_def sweep_lines_def c)
  have rest: "\<forall>K \<in> set Ks. cnt K \<noteq> None" using Cons.prems by simp
  have "sweep_loop env cnt res_seq (K # Ks) best w
        = sweep_loop env cnt res_seq Ks (best_step (K, t) best) w3"
    by (simp add: c m w3_def Let_def)
  also have "\<dots> = Ok (fold best_step (zip Ks ts) (best_step (K, t) best))
            (w3\<lparr>out := out w3 @ concat (map (sweep_lines cnt res_seq) (zip Ks ts)), ext := x2\<rparr>)"
    using Cons.IH [OF rest, of "best_step (K, t) best" w3] by (simp add: e s)
  finally show ?case
    by (simp add: q s o e)
qed

lemma sweep_loop_defined:
  assumes "sweep_loop env cnt res_seq Ks best w = Ok b w'"
  shows "\<forall>K \<in> set Ks. cnt K \<noteq> None"
  using assms
proof (induction Ks arbitrary: best w)
  case Nil
  then show ?case by simp
next
  case (Cons K Ks)
  from Cons.prems obtain res where c: "cnt K = Some res"
    by (cases "cnt K") simp_all
  have m: "measure_timer (now_w env) (\<lambda>w'. Ok () w') 7 w
      = Ok (fst (quiet_timer env (ext w))) (w\<lparr>ext := snd (quiet_timer env (ext w))\<rparr>)"
    by (rule measure_timer_lift)
  from Cons.prems obtain best1 w1 where "sweep_loop env cnt res_seq Ks best1 w1 = Ok b w'"
    by (simp add: c m Let_def)
  from Cons.IH [OF this] c show ?case by simp
qed

lemma timings_sweep_lines: "timings (concat (map (sweep_lines cnt res_seq) obs)) = obs"
  by (induction obs) (simp_all add: timings_def sweep_lines_def)

lemma errors_sweep_lines:
  "errors (concat (map (sweep_lines cnt res_seq) obs))
     = filter (\<lambda>K. cnt K \<noteq> Some res_seq) (map fst obs)"
  by (induction obs) (simp_all add: errors_def sweep_lines_def)

lemma since_append: "since w (w\<lparr>out := out w @ es, ext := x\<rparr>) = es"
  by (simp add: since_def)

text \<open>
  The fold of \<open>best_step\<close> either keeps its start, when no time is below it, or ends at
  the first observation whose time is strictly below the start, strictly below every
  earlier time and at most every time.
\<close>

lemma best_step_pair:
  "best_step ob (b, k) = (if snd ob < b then (snd ob, fst ob) else (b, k))"
  by (simp add: best_step_def)

lemma best_fold:
  assumes "fold best_step obs (b, k) = (bt, bk)"
  shows "(\<forall>ob \<in> set obs. bt \<le> snd ob)
       \<and> ((bt, bk) = (b, k) \<and> (\<forall>ob \<in> set obs. b \<le> snd ob)
          \<or> (\<exists>i<length obs. obs ! i = (bk, bt) \<and> bt < b \<and> (\<forall>j<i. bt < snd (obs ! j))))"
  using assms
proof (induction obs arbitrary: b k)
  case Nil
  then show ?case by simp
next
  case (Cons ob obs)
  show ?case
  proof (cases "snd ob < b")
    case True
    then have f: "fold best_step obs (snd ob, fst ob) = (bt, bk)"
      using Cons.prems by (simp add: best_step_pair)
    from Cons.IH [OF f] have le: "\<forall>o' \<in> set obs. bt \<le> snd o'"
      and d: "(bt, bk) = (snd ob, fst ob) \<and> (\<forall>o' \<in> set obs. snd ob \<le> snd o')
          \<or> (\<exists>i<length obs. obs ! i = (bk, bt) \<and> bt < snd ob \<and> (\<forall>j<i. bt < snd (obs ! j)))"
      by blast+
    from d show ?thesis
    proof
      assume a: "(bt, bk) = (snd ob, fst ob) \<and> (\<forall>o' \<in> set obs. snd ob \<le> snd o')"
      then have "(ob # obs) ! 0 = (bk, bt) \<and> bt < b \<and> (\<forall>j<0. bt < snd ((ob # obs) ! j))"
        using True by auto
      moreover have "\<forall>o' \<in> set (ob # obs). bt \<le> snd o'" using a le by auto
      ultimately show ?thesis by (metis length_greater_0_conv list.discI)
    next
      assume "\<exists>i<length obs. obs ! i = (bk, bt) \<and> bt < snd ob \<and> (\<forall>j<i. bt < snd (obs ! j))"
      then obtain i where i: "i < length obs" "obs ! i = (bk, bt)" "bt < snd ob"
          "\<forall>j<i. bt < snd (obs ! j)"
        by blast
      have "\<forall>j<Suc i. bt < snd ((ob # obs) ! j)"
        using i(3,4) by (auto simp: nth_Cons split: nat.splits)
      moreover have "Suc i < length (ob # obs)" "(ob # obs) ! Suc i = (bk, bt)" "bt < b"
        using i True by simp_all
      moreover have "\<forall>o' \<in> set (ob # obs). bt \<le> snd o'" using i(3) le by auto
      ultimately show ?thesis by blast
    qed
  next
    case False
    then have f: "fold best_step obs (b, k) = (bt, bk)"
      using Cons.prems by (simp add: best_step_pair)
    from Cons.IH [OF f] have le: "\<forall>o' \<in> set obs. bt \<le> snd o'"
      and d: "(bt, bk) = (b, k) \<and> (\<forall>o' \<in> set obs. b \<le> snd o')
          \<or> (\<exists>i<length obs. obs ! i = (bk, bt) \<and> bt < b \<and> (\<forall>j<i. bt < snd (obs ! j)))"
      by blast+
    from d show ?thesis
    proof
      assume a: "(bt, bk) = (b, k) \<and> (\<forall>o' \<in> set obs. b \<le> snd o')"
      then have "\<forall>o' \<in> set (ob # obs). b \<le> snd o'" using False by auto
      moreover have "\<forall>o' \<in> set (ob # obs). bt \<le> snd o'" using a calculation by auto
      ultimately show ?thesis using a by blast
    next
      assume "\<exists>i<length obs. obs ! i = (bk, bt) \<and> bt < b \<and> (\<forall>j<i. bt < snd (obs ! j))"
      then obtain i where i: "i < length obs" "obs ! i = (bk, bt)" "bt < b"
          "\<forall>j<i. bt < snd (obs ! j)"
        by blast
      have "bt < snd ob" using i(3) False by simp
      then have "\<forall>j<Suc i. bt < snd ((ob # obs) ! j)"
        using i(4) by (auto simp: nth_Cons split: nat.splits)
      moreover have "Suc i < length (ob # obs)" "(ob # obs) ! Suc i = (bk, bt)"
        using i by simp_all
      moreover have "\<forall>o' \<in> set (ob # obs). bt \<le> snd o'" using \<open>bt < snd ob\<close> le by auto
      ultimately show ?thesis using i(3) by blast
    qed
  qed
qed

section \<open>Runs in the example environment\<close>

lemma demo_quiet_timer:
  "quiet_timer demo_env 0 = (50, 14)"
  "quiet_timer demo_env 14 = (30, 28)"
  "quiet_timer demo_env 28 = (12, 42)"
  "quiet_timer demo_env 42 = (15, 56)"
  by (simp_all add: quiet_timer_def measure_timer_def measure_loop.simps demo_env_def
        demo_clock_def elapsed_ms_def)

lemma demo_sweep_times:
  "sweep_times demo_env [K1, K2, K3, K4] 0 = ([50, 30, 12, 15], 56)"
  "sweep_times demo_env [K1, K2, K3] 0 = ([50, 30, 12], 42)"
  by (simp_all add: demo_quiet_timer)

lemma demo_sweep:
  "sweep_loop demo_env (\<lambda>K. Some 3) 3 [1, 2, 4, 8] (bestT_init, 1) \<lparr>out = [], ext = 0\<rparr>
     = Ok (12, 4) \<lparr>out = [KTime 1 50, KTime 2 30, KTime 4 12, KTime 8 15], ext = 56\<rparr>"
  by (subst sweep_loop_run)
     (simp_all add: demo_quiet_timer sweep_lines_def best_step_pair bestT_init_def)

lemma demo_sweep_bad:
  "sweep_loop demo_env (\<lambda>K. if K = 2 then Some 0 else Some 3) 3 [1, 2, 4] (bestT_init, 1)
        \<lparr>out = [], ext = 0\<rparr>
      = Ok (12, 4) \<lparr>out = [KTime 1 50, ErrorAtK 2, KTime 2 30, KTime 4 12], ext = 42\<rparr>"
  by (subst sweep_loop_run)
     (simp_all add: demo_quiet_timer sweep_lines_def best_step_pair bestT_init_def)

lemma demo_sweep_good:
  "sweep_loop demo_env (\<lambda>K. Some 3) 3 [1, 2, 4] (bestT_init, 1) \<lparr>out = [], ext = 0\<rparr>
      = Ok (12, 4) \<lparr>out = [KTime 1 50, KTime 2 30, KTime 4 12], ext = 42\<rparr>"
  by (subst sweep_loop_run)
     (simp_all add: demo_quiet_timer sweep_lines_def best_step_pair bestT_init_def)

section \<open>The candidate thread counts\<close>

lemma distinct_remdups_adj_sorted:
  fixes xs :: "int list"
  shows "sorted xs \<Longrightarrow> distinct (remdups_adj xs)"
proof (induction xs rule: remdups_adj.induct)
  case 1
  then show ?case by simp
next
  case (2 x)
  then show ?case by simp
next
  case (3 x y xs)
  show ?case
  proof (cases "x = y")
    case True
    with 3 show ?thesis by simp
  next
    case False
    with "3.prems" have "x \<notin> set (y # xs)" by auto
    with False 3 show ?thesis by simp
  qed
qed

lemma unique_sort_eq:
  fixes xs :: "int list"
  shows "remdups_adj (sort xs) = sorted_list_of_set (set xs)"
  by (rule sorted_distinct_set_unique)
     (simp_all add: distinct_remdups_adj_sorted)

lemma push_loop_run:
  assumes hw: "0 \<le> hw" "hw < 2 ^ 29" and k: "0 < k"
  shows "\<exists>Ks'. push_loop hw k Ks = Some (Ks @ Ks')
           \<and> set Ks' = {k * 2 ^ i | i. k * 2 ^ i \<le> 2 * hw}"
  using k
proof (induction "nat (2 * hw + 1 - k)" arbitrary: k Ks rule: less_induct)
  case less
  have s: "smul hw 2 = Some (2 * hw)"
    using hw by (simp add: smul_def INT_MIN_def INT_MAX_def)
  show ?case
  proof (cases "k \<le> 2 * hw")
    case False
    have "k * 2 ^ i \<le> 2 * hw \<longleftrightarrow> False" for i :: nat
    proof -
      have "k * 1 \<le> k * 2 ^ i" using less.prems by (intro mult_left_mono) simp_all
      with False show ?thesis by simp
    qed
    then have "{k * 2 ^ i | i. k * 2 ^ i \<le> 2 * hw} = {}" by simp
    moreover have "push_loop hw k Ks = Some Ks"
      using False s by (subst push_loop.simps) simp
    ultimately show ?thesis by simp
  next
    case True
    have s2: "smul k 2 = Some (2 * k)"
      using True hw less.prems by (simp add: smul_def INT_MIN_def INT_MAX_def)
    have "nat (2 * hw + 1 - 2 * k) < nat (2 * hw + 1 - k)" using True less.prems by simp
    from less.hyps [OF this, of "Ks @ [k]"] less.prems
    obtain Ks'' where r: "push_loop hw (2 * k) (Ks @ [k]) = Some ((Ks @ [k]) @ Ks'')"
        "set Ks'' = {2 * k * 2 ^ i | i. 2 * k * 2 ^ i \<le> 2 * hw}"
      by auto
    have p: "push_loop hw k Ks = Some (Ks @ (k # Ks''))"
      using True s s2 r(1) by (subst push_loop.simps) simp
    have "set (k # Ks'') = {k * 2 ^ i | i. k * 2 ^ i \<le> 2 * hw}" (is "?A = ?B")
    proof
      show "?A \<subseteq> ?B"
      proof
        fix v assume "v \<in> ?A"
        then consider "v = k" | i where "v = 2 * k * 2 ^ i" "2 * k * 2 ^ i \<le> 2 * hw"
          using r(2) by auto
        then show "v \<in> ?B"
        proof cases
          case 1
          then have "v = k * 2 ^ 0 \<and> k * 2 ^ 0 \<le> 2 * hw" using True by simp
          then show ?thesis by blast
        next
          case 2
          then have "v = k * 2 ^ Suc i \<and> k * 2 ^ Suc i \<le> 2 * hw" by (simp add: mult.commute mult.left_commute)
          then show ?thesis by blast
        qed
      qed
      show "?B \<subseteq> ?A"
      proof
        fix v assume "v \<in> ?B"
        then obtain i where i: "v = k * 2 ^ i" "k * 2 ^ i \<le> 2 * hw" by blast
        show "v \<in> ?A"
        proof (cases i)
          case 0
          with i show ?thesis by simp
        next
          case (Suc j)
          with i have "v = 2 * k * 2 ^ j \<and> 2 * k * 2 ^ j \<le> 2 * hw" by (simp add: mult.commute mult.left_commute)
          then show ?thesis using r(2) by auto
        qed
      qed
    qed
    with p show ?thesis by blast
  qed
qed

lemma pow2_from_two: "{2 * 2 ^ i | i. (2::int) * 2 ^ i \<le> m} = {k. \<exists>j\<ge>1. k = 2 ^ j \<and> k \<le> m}"
proof (intro set_eqI iffI)
  fix k :: int
  assume "k \<in> {2 * 2 ^ i | i. (2::int) * 2 ^ i \<le> m}"
  then obtain i where "k = 2 * 2 ^ i" "(2::int) * 2 ^ i \<le> m" by blast
  then have "1 \<le> Suc i \<and> k = 2 ^ Suc i \<and> k \<le> m" by simp
  then show "k \<in> {k. \<exists>j\<ge>1. k = 2 ^ j \<and> k \<le> m}" by blast
next
  fix k :: int
  assume "k \<in> {k. \<exists>j\<ge>1. k = 2 ^ j \<and> k \<le> m}"
  then obtain j where j: "1 \<le> j" "k = 2 ^ j" "k \<le> m" by blast
  then obtain i where "j = Suc i" by (cases j) simp_all
  with j have "k = 2 * 2 ^ i \<and> (2::int) * 2 ^ i \<le> m" by simp
  then show "k \<in> {2 * 2 ^ i | i. (2::int) * 2 ^ i \<le> m}" by blast
qed

lemma hw_of_id: "1 \<le> H \<Longrightarrow> int H < 2 ^ 31 \<Longrightarrow> hw_of H = int H"
  by (simp add: hw_of_def to_int_id max_def)

text \<open>The loop only appends, so the seven constants stay in the list.\<close>

lemma push_loop_prefix:
  assumes "push_loop hw k Ks = Some Ks2"
  shows "\<exists>Ks'. Ks2 = Ks @ Ks'"
proof (rule push_loop.raw_induct [where P = "\<lambda>hw k Ks y. \<exists>Ks'. y = Ks @ Ks'", OF _ assms])
  fix f :: "int \<Rightarrow> int \<Rightarrow> int list \<Rightarrow> int list option" and hw k Ks y
  assume IH: "\<And>hw k Ks y. f hw k Ks = Some y \<Longrightarrow> \<exists>Ks'. y = Ks @ Ks'"
    and eq: "(case smul hw 2 of
                None \<Rightarrow> None
              | Some hw2 \<Rightarrow>
                  if k \<le> hw2
                  then case smul k 2 of None \<Rightarrow> None | Some k' \<Rightarrow> f hw k' (Ks @ [k])
                  else Some Ks) = Some y"
  show "\<exists>Ks'. y = Ks @ Ks'"
  proof (cases "smul hw 2")
    case None
    with eq show ?thesis by simp
  next
    case (Some hw2)
    show ?thesis
    proof (cases "k \<le> hw2")
      case False
      with eq Some show ?thesis by simp
    next
      case True
      with eq Some obtain k' where "f hw k' (Ks @ [k]) = Some y"
        by (cases "smul k 2") simp_all
      from IH [OF this] show ?thesis by auto
    qed
  qed
qed

lemma candidate_Ks_nonempty:
  assumes "candidate_Ks hc = Some (hw, Ks)"
  shows "Ks \<noteq> []"
proof -
  from assms obtain Ks2 where p: "push_loop (hw_of hc) 2 [1, 2, 4, 8, 16, 32, 64] = Some Ks2"
    and k: "Ks = remdups_adj (sort Ks2)"
    by (auto simp: candidate_Ks_def Let_def split: option.splits)
  from push_loop_prefix [OF p] have "Ks2 \<noteq> []" by auto
  then have "set Ks2 \<noteq> {}" by simp
  then have "set Ks \<noteq> {}" unfolding k by simp
  then show ?thesis by auto
qed

section \<open>The handlers of the library policies\<close>

lemma par_block_caught: "par_block env a pred res_seq w \<noteq> Raise w'"
  by (simp add: par_block_def Let_def split: outcome.splits)

lemma par_unseq_block_caught: "par_unseq_block env a pred res_seq w \<noteq> Raise w'"
  by (simp add: par_unseq_block_def Let_def split: outcome.splits)

lemma par_block_unsupported:
  assumes "count_if_par env a pred (ext w) = Raise x"
  shows "par_block env a pred res_seq w = Ok (res_seq, - 1) (emit ParNotSupported (w\<lparr>ext := x\<rparr>))"
  using assms by (simp add: par_block_def par_cnt_def lift_ext_def Let_def)

lemma par_unseq_block_unsupported:
  assumes "count_if_par_unseq env a pred (ext w) = Raise x"
  shows "par_unseq_block env a pred res_seq w
         = Ok (res_seq, - 1) (emit ParUnseqNotSupported (w\<lparr>ext := x\<rparr>))"
  using assms by (simp add: par_unseq_block_def par_unseq_cnt_def lift_ext_def Let_def)

text \<open>The body for one predicate up to the first \<^verbatim>\<open>try\<close> block.\<close>

lemma pred_body_seq:
  "pred_body env a pp w =
     then_do (par_block env a (snd pp) (seq_cnt a (snd pp))
                \<lparr>out = out w @ [PredName (fst pp), SeqTime (fst (quiet_timer env (ext w)))],
                 ext = snd (quiet_timer env (ext w))\<rparr>)
       (\<lambda>rp w3.
          then_do (par_unseq_block env a (snd pp) (seq_cnt a (snd pp)) w3)
            (\<lambda>ru w4. custom_sweep env (my_parallel_cnt a (snd pp)) (seq_cnt a (snd pp)) w4))"
proof -
  have "emit (SeqTime (fst (quiet_timer env (ext w))))
          (emit (PredName (fst pp)) w\<lparr>ext := snd (quiet_timer env (ext w))\<rparr>)
        = \<lparr>out = out w @ [PredName (fst pp), SeqTime (fst (quiet_timer env (ext w)))],
           ext = snd (quiet_timer env (ext w))\<rparr>"
    by (simp add: emit_def)
  moreover have "ext (emit (PredName (fst pp)) w) = ext w" by (simp add: emit_def)
  ultimately show ?thesis
    by (simp add: pred_body_def Let_def measure_timer_lift then_do_def)
qed

section \<open>The loop over the sizes\<close>

lemma fill_length: "length (fst (fill d xs g)) = length xs"
proof (induction xs arbitrary: g)
  case Nil
  then show ?case by simp
next
  case (Cons x xs)
  obtain v g1 where d: "d g = (v, g1)" by (cases "d g")
  obtain ys g2 where f: "fill d xs g1 = (ys, g2)" by (cases "fill d xs g1")
  from Cons [of g1] f have "length ys = length xs" by simp
  then show ?case by (simp add: d f)
qed

lemma workloads_lengths: "map length (workloads d Ns g) = map nat Ns"
proof (induction Ns arbitrary: g)
  case Nil
  then show ?case by simp
next
  case (Cons N Ns)
  obtain a g' where f: "fill d (replicate (nat N) 0) g = (a, g')"
    by (cases "fill d (replicate (nat N) 0) g")
  have "length a = nat N" using fill_length [of d "replicate (nat N) 0" g] f by simp
  with Cons [of g'] f show ?case by simp
qed

lemma sizes_loop_workloads:
  "sizes_loop env preds Ns rng w = sizes_run env preds (zip Ns (workloads (draw env) Ns rng)) w"
proof (induction Ns arbitrary: rng w)
  case Nil
  then show ?case by simp
next
  case (Cons N Ns)
  obtain a g' where f: "fill (draw env) (replicate (nat N) 0) rng = (a, g')"
    by (cases "fill (draw env) (replicate (nat N) 0) rng")
  show ?case by (simp add: f Cons)
qed

section \<open>The partitioned counter against the sequential counter\<close>

text \<open>
  C1. For every workload of at most \<open>INT_MAX\<close> elements (the sizes an \<^verbatim>\<open>int\<close> holds),
  every predicate and every thread count \<open>K \<ge> 1\<close>, the partitioned counter returns the
  value of the sequential counter. For the even test over \<open>[1, 2, 3, 4, 5, 6]\<close> the
  sequential count is 3 and so is the partitioned count for each \<open>K\<close> of 1, 2, 3, 6.
\<close>

theorem C1_partitioned_equals_sequential:
  "(int (length a) \<le> INT_MAX \<and> 1 \<le> K \<longrightarrow> my_parallel_cnt a p K = Some (seq_cnt a p))
   \<and> seq_cnt [1, 2, 3, 4, 5, 6] pred_light = 3
   \<and> my_parallel_cnt [1, 2, 3, 4, 5, 6] pred_light 1 = Some 3
   \<and> my_parallel_cnt [1, 2, 3, 4, 5, 6] pred_light 2 = Some 3
   \<and> my_parallel_cnt [1, 2, 3, 4, 5, 6] pred_light 3 = Some 3
   \<and> my_parallel_cnt [1, 2, 3, 4, 5, 6] pred_light 6 = Some 3"
proof -
  have s: "seq_cnt [1, 2, 3, 4, 5, 6] pred_light = 3"
    by (simp add: seq_cnt_def pred_light_def)
  have l: "int (length [1, 2, 3, 4, 5, 6 :: cint]) \<le> INT_MAX"
    by (simp add: INT_MAX_def)
  have e: "my_parallel_cnt [1, 2, 3, 4, 5, 6] pred_light K = Some 3" if "1 \<le> K" for K
    using my_parallel_cnt_in_range [OF l that, of pred_light] s by simp
  show ?thesis
    using s e [of 1] e [of 2] e [of 3] e [of 6] by (simp add: my_parallel_cnt_in_range)
qed

theorem C1_witness:
  "int (length [7, 8, 9, 10 :: cint]) \<le> INT_MAX \<and> (1::int) \<le> 3
   \<and> my_parallel_cnt [7, 8, 9, 10] pred_light 3 = Some (seq_cnt [7, 8, 9, 10] pred_light)
   \<and> seq_cnt [7, 8, 9, 10] pred_light = 2"
proof -
  have h: "int (length [7, 8, 9, 10 :: cint]) \<le> INT_MAX \<and> (1::int) \<le> 3"
    by (simp add: INT_MAX_def)
  have s: "seq_cnt [7, 8, 9, 10] pred_light = 2"
    by (simp add: seq_cnt_def pred_light_def)
  show ?thesis
    using h s C1_partitioned_equals_sequential [of "[7, 8, 9, 10]" 3 pred_light] by simp
qed

text \<open>
  Without the bound on the size the statement fails. On a workload of \<open>2 ^ 32\<close>
  elements \<^verbatim>\<open>int n = a.size()\<close> is 0, both ranges are empty, and the partitioned
  counter returns 0 where the sequential counter returns \<open>2 ^ 32\<close>.
\<close>

theorem C1_counterexample:
  "my_parallel_cnt (replicate (2 ^ 32) 0) (\<lambda>x. True) 2 = Some 0
   \<and> seq_cnt (replicate (2 ^ 32) 0) (\<lambda>x. True) = 4294967296"
proof -
  have b: "bound_L 0 2 0 = 0" "bound_R 0 2 0 = 0" "bound_L 0 2 1 = 0" "bound_R 0 2 1 = 0"
    by (simp_all add: bound_L_def bound_R_def to_int_def)
  have c: "count_if_range a 0 0 p = Some 0" for a p
    by (simp add: count_if_range_def count_between_def)
  have g: "my_parallel_cnt a p 2 = Some 0" if "to_int (int (length a)) = 0" for a p
    by (simp add: my_parallel_cnt_def my_parallel_run_def Let_def that replicate_two spawn_two b
          run_worker_def c)
  have "my_parallel_cnt (replicate (2 ^ 32) 0) (\<lambda>x. True) 2 = Some 0"
    by (rule g) (simp add: to_int_def)
  moreover have "seq_cnt (replicate (2 ^ 32) 0) (\<lambda>x. True) = 4294967296"
    by (simp add: seq_cnt_def)
  ultimately show ?thesis by simp
qed

section \<open>The partition plan\<close>

text \<open>
  C2. For every \<open>N \<ge> 0\<close> and every \<open>K \<ge> 1\<close>, the \<open>K\<close> half-open ranges \<open>[L k, R k)\<close>
  with \<open>L k = floor (N * k / K)\<close> and \<open>R k = floor (N * (k + 1) / K)\<close>, for \<open>k\<close> from 0
  to \<open>K - 1\<close>, have boundaries that do not decrease: each range starts at or before
  its end, the first starts at 0, each starts where the one before it ends, and the
  last ends at \<open>N\<close>. They do not overlap (an earlier range ends at or before the
  start of every later one), each index of \<open>[0, N)\<close> lies in exactly one of them, and
  they hold nothing else. They are the ranges the spawning loop computes for every
  value \<open>N\<close> that the \<^verbatim>\<open>int n\<close> of the source can hold. For \<open>N = 8\<close> and \<open>K = 3\<close> the
  loop gives \<open>[0, 2)\<close>, \<open>[2, 5)\<close>, \<open>[5, 8)\<close>.
\<close>

theorem C2_partition_plan:
  assumes N: "0 \<le> N" and K: "1 \<le> K"
  shows "(let L = (\<lambda>k. N * int k div K); R = (\<lambda>k. N * (int k + 1) div K) in
      (\<forall>k<nat K. L k \<le> R k)
    \<and> L 0 = 0 \<and> R (nat K - 1) = N
    \<and> (\<forall>k. Suc k < nat K \<longrightarrow> R k = L (Suc k))
    \<and> (\<forall>j k. j < k \<and> k < nat K \<longrightarrow> R j \<le> L k)
    \<and> (\<forall>i. 0 \<le> i \<and> i < N \<longrightarrow> (\<exists>!k. k < nat K \<and> L k \<le> i \<and> i < R k))
    \<and> (\<forall>k i. k < nat K \<and> L k \<le> i \<and> i < R k \<longrightarrow> 0 \<le> i \<and> i < N)
    \<and> (N \<le> INT_MAX \<longrightarrow>
          length (spawn_loop N K 0 []) = nat K
        \<and> (\<forall>k<nat K. spawn_loop N K 0 [] ! k = \<lparr>cap_L = L k, cap_R = R k, cap_k = int k\<rparr>)))
    \<and> spawn_loop 8 3 0 [] =
        [\<lparr>cap_L = 0, cap_R = 2, cap_k = 0\<rparr>, \<lparr>cap_L = 2, cap_R = 5, cap_k = 1\<rparr>,
         \<lparr>cap_L = 5, cap_R = 8, cap_k = 2\<rparr>]"
proof -
  define L where "L = (\<lambda>k. N * int k div K)"
  define R where "R = (\<lambda>k. N * (int k + 1) div K)"
  have K0: "0 \<le> K" "0 < K" using K by simp_all
  have mono: "L k \<le> R k" for k
    using N K0 by (simp add: L_def R_def plan_div_mono)
  have first: "L 0 = 0" by (simp add: L_def)
  have last: "R (nat K - 1) = N"
  proof -
    have "int (nat K - 1) + 1 = K" using K by simp
    then show ?thesis using K by (simp add: R_def)
  qed
  have contig: "R k = L (Suc k)" for k
    by (simp add: L_def R_def add.commute)
  have disj: "R j \<le> L k" if "j < k" for j k
  proof -
    have "int j + 1 \<le> int k" using that by simp
    then show ?thesis
      unfolding L_def R_def using N K0 by (intro plan_div_mono) simp_all
  qed
  have inside: "0 \<le> i \<and> i < N" if "k < nat K" "L k \<le> i" "i < R k" for k i
  proof -
    have kK: "0 \<le> int k" "int k \<le> K" "0 \<le> int k + 1" "int k + 1 \<le> K" using that by simp_all
    have "0 \<le> N * int k div K" using N K0 kK by (intro plan_div_bounds) simp_all
    moreover have "N * (int k + 1) div K \<le> N" using N K0 kK by (intro plan_div_bounds) simp_all
    ultimately show ?thesis using that by (simp add: L_def R_def)
  qed
  have cover: "\<exists>!k. k < nat K \<and> L k \<le> i \<and> i < R k" if "0 \<le> i" "i < N" for i
  proof -
    have "i < N * int (nat K) div K" using that K by simp
    from cover_exists [OF that(1) this]
    obtain k where k: "k < nat K" "L k \<le> i" "i < R k"
      unfolding L_def R_def by blast
    show ?thesis
    proof (rule ex1I [of _ k])
      show "k < nat K \<and> L k \<le> i \<and> i < R k" using k by simp
    next
      fix j
      assume j: "j < nat K \<and> L j \<le> i \<and> i < R j"
      show "j = k"
      proof (rule ccontr)
        assume "j \<noteq> k"
        then consider "j < k" | "k < j" by linarith
        then show False
        proof cases
          case 1
          then have "R j \<le> L k" by (rule disj)
          then show False using j k by simp
        next
          case 2
          then have "R k \<le> L j" by (rule disj)
          then show False using j k by simp
        qed
      qed
    qed
  qed
  have code: "length (spawn_loop N K 0 []) = nat K
        \<and> (\<forall>k<nat K. spawn_loop N K 0 [] ! k = \<lparr>cap_L = L k, cap_R = R k, cap_k = int k\<rparr>)"
    if "N \<le> INT_MAX"
    unfolding L_def R_def using plan_length [OF K0(1)] plan_nth [OF N that K] by blast
  have ex: "spawn_loop 8 3 0 [] =
        [\<lparr>cap_L = 0, cap_R = 2, cap_k = 0\<rparr>, \<lparr>cap_L = 2, cap_R = 5, cap_k = 1\<rparr>,
         \<lparr>cap_L = 5, cap_R = 8, cap_k = 2\<rparr>]"
    by code_simp
  show ?thesis
    unfolding Let_def L_def [symmetric] R_def [symmetric]
    using mono first last contig disj cover inside code ex by blast
qed

text \<open>The witness is the plan for ten elements and four workers.\<close>

theorem C2_witness:
  "(0::int) \<le> 10 \<and> (1::int) \<le> 4 \<and> (10::int) \<le> INT_MAX
   \<and> length (spawn_loop 10 4 0 []) = 4
   \<and> spawn_loop 10 4 0 [] ! 0 = \<lparr>cap_L = 0, cap_R = 2, cap_k = 0\<rparr>
   \<and> spawn_loop 10 4 0 [] ! 1 = \<lparr>cap_L = 2, cap_R = 5, cap_k = 1\<rparr>
   \<and> spawn_loop 10 4 0 [] ! 2 = \<lparr>cap_L = 5, cap_R = 7, cap_k = 2\<rparr>
   \<and> spawn_loop 10 4 0 [] ! 3 = \<lparr>cap_L = 7, cap_R = 10, cap_k = 3\<rparr>"
proof -
  have h: "(0::int) \<le> 10" "(1::int) \<le> 4" by simp_all
  have m: "(10::int) \<le> INT_MAX" by (simp add: INT_MAX_def)
  note p = C2_partition_plan [OF h, unfolded Let_def, THEN conjunct1]
  note c = p [THEN conjunct2, THEN conjunct2, THEN conjunct2, THEN conjunct2, THEN conjunct2,
              THEN conjunct2, THEN conjunct2, rule_format, OF m]
  have l: "length (spawn_loop 10 4 0 []) = 4"
    using c [THEN conjunct1] by simp
  have n: "spawn_loop 10 4 0 [] ! 0 = \<lparr>cap_L = 0, cap_R = 2, cap_k = 0\<rparr>"
      "spawn_loop 10 4 0 [] ! 1 = \<lparr>cap_L = 2, cap_R = 5, cap_k = 1\<rparr>"
      "spawn_loop 10 4 0 [] ! 2 = \<lparr>cap_L = 5, cap_R = 7, cap_k = 2\<rparr>"
      "spawn_loop 10 4 0 [] ! 3 = \<lparr>cap_L = 7, cap_R = 10, cap_k = 3\<rparr>"
    using c [THEN conjunct2, rule_format, of 0] c [THEN conjunct2, rule_format, of 1]
      c [THEN conjunct2, rule_format, of 2] c [THEN conjunct2, rule_format, of 3]
    by simp_all
  show ?thesis using h m l n by simp
qed

section \<open>The degenerate case\<close>

text \<open>
  C6. For every workload, every predicate and every \<open>K \<le> 1\<close> the partitioned counter
  spawns no thread and returns the value of the sequential counter.
\<close>

theorem C6_degenerate:
  "K \<le> 1 \<Longrightarrow> my_parallel_run a p K = ([], Some (seq_cnt a p))
     \<and> my_parallel_cnt a p K = Some (seq_cnt a p)"
  by (simp add: my_parallel_cnt_def my_parallel_run_def Let_def)

theorem C6_witness:
  "(1::int) \<le> 1 \<and> my_parallel_run [1, 2, 3, 4, 5, 6] pred_light 1 = ([], Some 3)
   \<and> my_parallel_cnt [1, 2, 3, 4, 5, 6] pred_light 1 = Some 3
   \<and> (- 4 :: int) \<le> 1 \<and> my_parallel_run [1, 2, 3, 4, 5, 6] pred_light (- 4) = ([], Some 3)"
  using C6_degenerate [of 1 "[1, 2, 3, 4, 5, 6]" pred_light]
    C6_degenerate [of "- 4" "[1, 2, 3, 4, 5, 6]" pred_light]
  by (simp add: seq_cnt_def pred_light_def)

section \<open>The ranges of the workers\<close>

text \<open>
  C9. For every workload of at most \<open>INT_MAX\<close> elements and every \<open>K \<ge> 2\<close>, each worker
  the partitioned counter spawns has bounds with \<open>0 \<le> L \<le> R \<le> n\<close>, \<open>n\<close> the size of the
  workload, and a slot below \<open>K\<close>; its range count is defined, and it is 0 when the range
  is empty. When \<open>K\<close> exceeds \<open>n\<close> some range is empty, and the total is still the value of
  the sequential counter.
\<close>

theorem C9_worker_ranges:
  assumes len: "int (length a) \<le> INT_MAX" and K: "2 \<le> K"
  shows "(\<forall>w \<in> set (fst (my_parallel_run a p K)).
            0 \<le> cap_L w \<and> cap_L w \<le> cap_R w \<and> cap_R w \<le> int (length a)
          \<and> 0 \<le> cap_k w \<and> cap_k w < K
          \<and> count_if_range a (cap_L w) (cap_R w) p = Some (count_between a (cap_L w) (cap_R w) p)
          \<and> (cap_L w = cap_R w \<longrightarrow> count_if_range a (cap_L w) (cap_R w) p = Some 0))
       \<and> (int (length a) < K \<longrightarrow> (\<exists>w \<in> set (fst (my_parallel_run a p K)). cap_L w = cap_R w))
       \<and> my_parallel_cnt a p K = Some (seq_cnt a p)"
proof -
  define n where "n = int (length a)"
  define th where "th = fst (my_parallel_run a p K)"
  have n: "to_int (int (length a)) = n" "0 \<le> n" "n \<le> INT_MAX"
    using len by (simp_all add: n_def to_int_id INT_MAX_def)
  have K0: "0 \<le> K" "0 < K" "1 \<le> K" "1 < K" using K by simp_all
  have th: "th = spawn_loop n K 0 []"
    using K0 by (simp add: th_def my_parallel_run_threads n)
  have lenth: "length th = nat K" by (simp add: th plan_length K0)
  have nth: "th ! k = \<lparr>cap_L = n * int k div K, cap_R = n * (int k + 1) div K, cap_k = int k\<rparr>"
    if "k < nat K" for k
    unfolding th using n(2,3) K0(3) that by (rule plan_nth)
  have each: "0 \<le> cap_L w \<and> cap_L w \<le> cap_R w \<and> cap_R w \<le> int (length a)
          \<and> 0 \<le> cap_k w \<and> cap_k w < K
          \<and> count_if_range a (cap_L w) (cap_R w) p = Some (count_between a (cap_L w) (cap_R w) p)
          \<and> (cap_L w = cap_R w \<longrightarrow> count_if_range a (cap_L w) (cap_R w) p = Some 0)"
    if "w \<in> set th" for w
  proof -
    from that obtain k where k: "k < nat K" "w = th ! k"
      by (auto simp: in_set_conv_nth lenth)
    have kK: "0 \<le> int k" "int k \<le> K" "0 \<le> int k + 1" "int k + 1 \<le> K" using k by simp_all
    have w: "cap_L w = n * int k div K" "cap_R w = n * (int k + 1) div K" "cap_k w = int k"
      using k nth by simp_all
    have b1: "0 \<le> n * int k div K" using n K0 kK by (intro plan_div_bounds) simp_all
    have b2: "n * int k div K \<le> n * (int k + 1) div K" using n K0 by (intro plan_div_mono) simp_all
    have b3: "n * (int k + 1) div K \<le> n" using n K0 kK by (intro plan_div_bounds) simp_all
    show ?thesis
      using b1 b2 b3 k(1) by (simp add: w count_if_range_def count_between_def n_def [symmetric])
  qed
  have empty: "\<exists>w \<in> set th. cap_L w = cap_R w" if "int (length a) < K"
  proof -
    have "0 < nat K" using K by simp
    then have "th ! 0 \<in> set th" by (simp add: lenth)
    moreover have "cap_L (th ! 0) = cap_R (th ! 0)"
      using that nth [of 0] K n(2) by (simp add: n_def)
    ultimately show ?thesis by blast
  qed
  have "my_parallel_cnt a p K = Some (seq_cnt a p)"
    using len K0(3) by (rule my_parallel_cnt_in_range)
  with each empty show ?thesis unfolding th_def by blast
qed

theorem C9_witness:
  "int (length [1, 2, 3 :: cint]) \<le> INT_MAX \<and> (2::int) \<le> 5
   \<and> fst (my_parallel_run [1, 2, 3] pred_light 5) =
       [\<lparr>cap_L = 0, cap_R = 0, cap_k = 0\<rparr>, \<lparr>cap_L = 0, cap_R = 1, cap_k = 1\<rparr>,
        \<lparr>cap_L = 1, cap_R = 1, cap_k = 2\<rparr>, \<lparr>cap_L = 1, cap_R = 2, cap_k = 3\<rparr>,
        \<lparr>cap_L = 2, cap_R = 3, cap_k = 4\<rparr>]
   \<and> my_parallel_cnt [1, 2, 3] pred_light 5 = Some (seq_cnt [1, 2, 3] pred_light)
   \<and> seq_cnt [1, 2, 3] pred_light = 1"
proof -
  have h: "int (length [1, 2, 3 :: cint]) \<le> INT_MAX" "(2::int) \<le> 5"
    by (simp_all add: INT_MAX_def)
  have t: "fst (my_parallel_run [1, 2, 3] pred_light 5) =
       [\<lparr>cap_L = 0, cap_R = 0, cap_k = 0\<rparr>, \<lparr>cap_L = 0, cap_R = 1, cap_k = 1\<rparr>,
        \<lparr>cap_L = 1, cap_R = 1, cap_k = 2\<rparr>, \<lparr>cap_L = 1, cap_R = 2, cap_k = 3\<rparr>,
        \<lparr>cap_L = 2, cap_R = 3, cap_k = 4\<rparr>]"
    by code_simp
  have s: "seq_cnt [1, 2, 3] pred_light = 1"
    by (simp add: seq_cnt_def pred_light_def)
  show ?thesis using h t s C9_worker_ranges [OF h, of pred_light] by simp
qed

text \<open>
  Without the bound on the size the statement fails. On a workload of \<open>2 ^ 31\<close>
  elements \<^verbatim>\<open>int n = a.size()\<close> is \<open>- 2 ^ 31\<close>, the bounds of both workers are
  negative or zero, and the first range count is already undefined.
\<close>

theorem C9_counterexample:
  "fst (my_parallel_run (replicate (2 ^ 31) 0) (\<lambda>x. True) 2) =
   [\<lparr>cap_L = 0, cap_R = - 1073741824, cap_k = 0\<rparr>,
    \<lparr>cap_L = - 1073741824, cap_R = - 2147483648, cap_k = 1\<rparr>]
  \<and> my_parallel_cnt (replicate (2 ^ 31) 0) (\<lambda>x. True) 2 = None"
proof -
  have b: "bound_L (- 2147483648) 2 0 = 0" "bound_R (- 2147483648) 2 0 = - 1073741824"
     "bound_L (- 2147483648) 2 1 = - 1073741824" "bound_R (- 2147483648) 2 1 = - 2147483648"
    by (simp_all add: bound_L_def bound_R_def to_int_def signed_divide_int_def)
  have c: "count_if_range a 0 (- 1073741824) p = None" for a p
    by (simp add: count_if_range_def)
  have g: "fst (my_parallel_run a p 2) =
      [\<lparr>cap_L = 0, cap_R = - 1073741824, cap_k = 0\<rparr>,
       \<lparr>cap_L = - 1073741824, cap_R = - 2147483648, cap_k = 1\<rparr>]
      \<and> my_parallel_cnt a p 2 = None"
    if "to_int (int (length a)) = - 2147483648" for a p
    by (simp add: my_parallel_cnt_def my_parallel_run_def Let_def that replicate_two spawn_two b
          run_worker_def c)
  show ?thesis
    by (rule g) (simp add: to_int_def)
qed

section \<open>The order of the workers does not matter\<close>

text \<open>
  For a workload of at most \<open>INT_MAX\<close> elements and \<open>K \<ge> 2\<close>, the vector
  \<^verbatim>\<open>partial\<close> after the joins is the same in whatever order the spawned workers take
  effect: they write to distinct slots. This is what lets the model run the workers
  one after the other.
\<close>

theorem join_order_irrelevant:
  assumes len: "int (length a) \<le> INT_MAX" and K: "2 \<le> K"
    and perm: "mset th' = mset (fst (my_parallel_run a p K))"
  shows "join_all a p th' (replicate (nat K) 0)
         = join_all a p (fst (my_parallel_run a p K)) (replicate (nat K) 0)"
proof -
  have ok: "\<forall>w \<in> set (fst (my_parallel_run a p K)). worker_ok a (length (replicate (nat K) (0::int))) w"
    using spawned_workers_ok(1) [OF len K] by simp
  have "distinct (map int [0..<nat K])" by (simp add: distinct_map)
  then have d: "distinct (map cap_k (fst (my_parallel_run a p K)))"
    using spawned_workers_ok(2) [OF len K, of p] by simp
  from ok d perm show ?thesis by (rule join_all_permuted)
qed

theorem join_order_example:
  "int (length [1, 2, 3, 4, 5, 6 :: cint]) \<le> INT_MAX \<and> (2::int) \<le> 3
   \<and> mset [\<lparr>cap_L = 4, cap_R = 6, cap_k = 2\<rparr>, \<lparr>cap_L = 0, cap_R = 2, cap_k = 0\<rparr>,
            \<lparr>cap_L = 2, cap_R = 4, cap_k = 1\<rparr>]
       = mset (fst (my_parallel_run [1, 2, 3, 4, 5, 6] pred_light 3))
   \<and> join_all [1, 2, 3, 4, 5, 6] pred_light
         [\<lparr>cap_L = 4, cap_R = 6, cap_k = 2\<rparr>, \<lparr>cap_L = 0, cap_R = 2, cap_k = 0\<rparr>,
          \<lparr>cap_L = 2, cap_R = 4, cap_k = 1\<rparr>] (replicate (nat 3) 0)
       = join_all [1, 2, 3, 4, 5, 6] pred_light
           (fst (my_parallel_run [1, 2, 3, 4, 5, 6] pred_light 3)) (replicate (nat 3) 0)
   \<and> join_all [1, 2, 3, 4, 5, 6] pred_light
           (fst (my_parallel_run [1, 2, 3, 4, 5, 6] pred_light 3)) (replicate (nat 3) 0)
       = Some [1, 1, 1]"
proof -
  have h: "int (length [1, 2, 3, 4, 5, 6 :: cint]) \<le> INT_MAX" "(2::int) \<le> 3"
    by (simp_all add: INT_MAX_def)
  have t: "fst (my_parallel_run [1, 2, 3, 4, 5, 6] pred_light 3)
       = [\<lparr>cap_L = 0, cap_R = 2, cap_k = 0\<rparr>, \<lparr>cap_L = 2, cap_R = 4, cap_k = 1\<rparr>,
          \<lparr>cap_L = 4, cap_R = 6, cap_k = 2\<rparr>]"
    by code_simp
  have m: "mset [\<lparr>cap_L = 4, cap_R = 6, cap_k = 2\<rparr>, \<lparr>cap_L = 0, cap_R = 2, cap_k = 0\<rparr>,
            \<lparr>cap_L = 2, cap_R = 4, cap_k = 1\<rparr>]
       = mset (fst (my_parallel_run [1, 2, 3, 4, 5, 6] pred_light 3))"
    unfolding t by simp
  have j: "join_all [1, 2, 3, 4, 5, 6] pred_light
           (fst (my_parallel_run [1, 2, 3, 4, 5, 6] pred_light 3)) (replicate (nat 3) 0)
       = Some [1, 1, 1]"
    unfolding t by code_simp
  show ?thesis
    using h m j join_order_irrelevant [OF h m] by simp
qed

section \<open>The timer takes the median of its samples\<close>

text \<open>
  C3. For every operation that returns and every repeat count \<open>R \<ge> 1\<close> (the callers
  pass the default 7), the timer takes \<open>R\<close> samples and returns the element at index
  \<open>R div 2\<close> of the sorted samples, which lies between the minimum and the maximum of
  the samples; and it invokes the operation exactly \<open>R\<close> times. The invocations are
  counted by running the same timer with a counter beside the state
  (\<open>counting\<close>): that run takes the same samples, returns the same value, ends in
  the same state, and its counter has risen by exactly \<open>R\<close>. The same holds for any
  reading \<open>calls\<close> of the state itself that an invocation raises by one and a clock
  reading leaves alone.
\<close>

theorem C3_timer_median:
  assumes R: "1 \<le> R"
    and ok: "\<forall>s. \<exists>s'. fn s = Ok () s'"
  shows "\<exists>t s'. measure_loop now fn R 0 [] s = Ok t s'
            \<and> length t = nat R
            \<and> measure_timer now fn R s = Ok (sort t ! (nat R div 2)) s'
            \<and> Min (set t) \<le> sort t ! (nat R div 2) \<and> sort t ! (nat R div 2) \<le> Max (set t)
            \<and> measure_loop (counting_now now) (counting fn) R 0 [] (s, c) = Ok t (s', c + nat R)
            \<and> measure_timer (counting_now now) (counting fn) R (s, c)
                = Ok (sort t ! (nat R div 2)) (s', c + nat R)
            \<and> (\<forall>calls :: 's \<Rightarrow> nat.
                  (\<forall>s s'. fn s = Ok () s' \<longrightarrow> calls s' = Suc (calls s))
                  \<and> (\<forall>s. calls (snd (now s)) = calls s)
                  \<longrightarrow> calls s' = calls s + nat R)"
proof -
  from measure_loop_counting [OF ok, of now R 0 "[]" s c]
  obtain t s' where r: "measure_loop now fn R 0 [] s = Ok t s'" "length t = nat R"
      and rc: "measure_loop (counting_now now) (counting fn) R 0 [] (s, c) = Ok t (s', c + nat R)"
    by auto
  have k: "nat R div 2 < length t" using R r(2) by simp
  have m: "measure_timer now fn R s = Ok (sort t ! (nat R div 2)) s'"
    using r k by (simp add: measure_timer_def)
  have mc: "measure_timer (counting_now now) (counting fn) R (s, c)
                = Ok (sort t ! (nat R div 2)) (s', c + nat R)"
    using rc r(2) k by (simp add: measure_timer_def)
  have cl: "calls s' = calls s + nat R"
    if cf: "\<forall>s s'. fn s = Ok () s' \<longrightarrow> calls s' = Suc (calls s)"
      and cn: "\<forall>s. calls (snd (now s)) = calls s" for calls :: "'s \<Rightarrow> nat"
  proof -
    from measure_loop_ok [OF ok cf cn, of R 0 "[]" s]
    obtain t2 s2 where "measure_loop now fn R 0 [] s = Ok t2 s2" "calls s2 = calls s + nat R"
      by auto
    with r(1) show ?thesis by simp
  qed
  have cl': "\<forall>calls :: 's \<Rightarrow> nat.
                  (\<forall>s s'. fn s = Ok () s' \<longrightarrow> calls s' = Suc (calls s))
                  \<and> (\<forall>s. calls (snd (now s)) = calls s)
                  \<longrightarrow> calls s' = calls s + nat R"
    by (intro allI impI, elim conjE, rule cl)
  note b = sort_nth_between [OF k]
  show ?thesis
    by (rule exI [of _ t], rule exI [of _ s'])
       (intro conjI r(1) r(2) m b(1) b(2) rc mc cl')
qed

text \<open>
  The witness times seven runs of an operation that leaves the state alone, as the
  counters of the driver do. The state counts the clock readings, which are taken from
  a table (in milliseconds); the samples are 5, 2, 9, 1, 3, 10, 4, and the counter of
  the instrumented run ends at 7. Its last part times an operation that counts its own
  invocations in the second component of the state: that reading ends at 7 as well.
\<close>

theorem C3_witness:
  "(1::int) \<le> 7
   \<and> (\<lambda>s :: nat. Ok () s) 5 = Ok () 5
   \<and> measure_loop
        (\<lambda>s. (word_of_nat ([0, 5, 5, 7, 7, 16, 16, 17, 17, 20, 20, 30, 30, 34] ! s * 1000000), Suc s))
        (\<lambda>s. Ok () s) 7 0 [] 0 = Ok [5, 2, 9, 1, 3, 10, 4] 14
   \<and> measure_timer
        (\<lambda>s. (word_of_nat ([0, 5, 5, 7, 7, 16, 16, 17, 17, 20, 20, 30, 30, 34] ! s * 1000000), Suc s))
        (\<lambda>s. Ok () s) 7 0 = Ok 4 14
   \<and> measure_timer
        (counting_now
           (\<lambda>s. (word_of_nat ([0, 5, 5, 7, 7, 16, 16, 17, 17, 20, 20, 30, 30, 34] ! s * 1000000), Suc s)))
        (counting (\<lambda>s. Ok () s)) 7 (0, 0) = Ok 4 (14, 7)
   \<and> (\<exists>t s'. measure_loop
          (\<lambda>s. (word_of_nat ([0, 5, 5, 7, 7, 16, 16, 17, 17, 20, 20, 30, 30, 34] ! fst s * 1000000),
                (Suc (fst s), snd s)))
          (\<lambda>s. Ok () (fst s, Suc (snd s))) 7 0 [] (0, 0) = Ok t s'
        \<and> length t = 7 \<and> snd s' = 7
        \<and> Min (set t) \<le> sort t ! 3 \<and> sort t ! 3 \<le> Max (set t))
   \<and> measure_timer
        (\<lambda>s. (word_of_nat ([0, 5, 5, 7, 7, 16, 16, 17, 17, 20, 20, 30, 30, 34] ! fst s * 1000000),
              (Suc (fst s), snd s)))
        (\<lambda>s. Ok () (fst s, Suc (snd s))) 7 (0, 0) = Ok 4 (14, 7)"
proof -
  let ?now = "\<lambda>s :: nat.
       (word_of_nat ([0, 5, 5, 7, 7, 16, 16, 17, 17, 20, 20, 30, 30, 34] ! s * 1000000) :: 64 word,
        Suc s)"
  let ?fn = "\<lambda>s :: nat. Ok () s"
  let ?now2 = "\<lambda>s :: nat \<times> nat.
       (word_of_nat ([0, 5, 5, 7, 7, 16, 16, 17, 17, 20, 20, 30, 30, 34] ! fst s * 1000000) :: 64 word,
        (Suc (fst s), snd s))"
  let ?fn2 = "\<lambda>s :: nat \<times> nat. Ok () (fst s, Suc (snd s))"
  have R: "(1::int) \<le> 7" by simp
  have ok: "\<forall>s. \<exists>s'. ?fn s = Ok () s'" by simp
  have l: "measure_loop ?now ?fn 7 0 [] 0 = Ok [5, 2, 9, 1, 3, 10, 4] 14"
    by (simp add: measure_loop.simps elapsed_ms_def)
  have m: "measure_timer ?now ?fn 7 0 = Ok 4 14"
    unfolding measure_timer_def l by simp
  from C3_timer_median [OF R ok, of ?now 0 0]
  obtain t s' where t: "measure_loop ?now ?fn 7 0 [] 0 = Ok t s'"
      and c: "measure_timer (counting_now ?now) (counting ?fn) 7 (0, 0)
                = Ok (sort t ! (nat 7 div 2)) (s', 0 + nat 7)"
    by blast
  from t l have "t = [5, 2, 9, 1, 3, 10, 4]" "s' = 14" by simp_all
  with c have mc: "measure_timer (counting_now ?now) (counting ?fn) 7 (0, 0) = Ok 4 (14, 7)"
    by simp
  have ok2: "\<forall>s. \<exists>s'. ?fn2 s = Ok () s'" by simp
  have cf: "\<forall>s s'. ?fn2 s = Ok () s' \<longrightarrow> snd s' = Suc (snd s)" by auto
  have cn: "\<forall>s. snd (snd (?now2 s)) = snd s" by simp
  have l2: "measure_loop ?now2 ?fn2 7 0 [] (0, 0) = Ok [5, 2, 9, 1, 3, 10, 4] (14, 7)"
    by (simp add: measure_loop.simps elapsed_ms_def)
  have m2: "measure_timer ?now2 ?fn2 7 (0, 0) = Ok 4 (14, 7)"
    unfolding measure_timer_def l2 by simp
  from C3_timer_median [OF R ok2, of ?now2 "(0, 0)" 0]
  obtain t2 s2 where t2: "measure_loop ?now2 ?fn2 7 0 [] (0, 0) = Ok t2 s2"
      "length t2 = nat 7"
      "Min (set t2) \<le> sort t2 ! (nat 7 div 2)" "sort t2 ! (nat 7 div 2) \<le> Max (set t2)"
      and cl: "\<forall>calls :: nat \<times> nat \<Rightarrow> nat.
                  (\<forall>s s'. ?fn2 s = Ok () s' \<longrightarrow> calls s' = Suc (calls s))
                  \<and> (\<forall>s. calls (snd (?now2 s)) = calls s)
                  \<longrightarrow> calls s2 = calls (0, 0) + nat 7"
    by (elim exE conjE) (rule that, assumption+)
  from cl [rule_format, of snd, OF conjI [OF cf cn]]
  have "snd s2 = 7" by simp
  with t2 have p2: "\<exists>t s'. measure_loop ?now2 ?fn2 7 0 [] (0, 0) = Ok t s'
        \<and> length t = 7 \<and> snd s' = 7
        \<and> Min (set t) \<le> sort t ! 3 \<and> sort t ! 3 \<le> Max (set t)"
    by (intro exI [of _ t2] exI [of _ s2]) simp
  from R l m mc p2 m2 show ?thesis by (intro conjI) simp_all
qed

text \<open>
  The statement fails for a repeat count of 0 and for an operation that throws. With
  no repetition the timer has no sample and reads \<^verbatim>\<open>t[0]\<close> of an empty vector. An
  operation that throws is invoked once, not seven times, and its exception leaves the
  timer; the state counts the invocations.
\<close>

theorem C3_counterexample:
  "measure_timer (\<lambda>s. (0, s)) (\<lambda>s. Ok () (Suc s)) 0 (0::nat) = Undef
   \<and> measure_timer (\<lambda>s. (0, s)) (\<lambda>s. Raise (Suc s)) 7 (0::nat) = Raise 1"
  by (simp add: measure_timer_def measure_loop.simps)

section \<open>The selection of the best thread count\<close>

text \<open>
  C4. A sweep that ends has reported one \<open>(K, time)\<close> observation for each candidate,
  in order, and the list of candidates is never empty. The pair \<open>(bestT, bestK)\<close> it
  ends with is the fold of \<^verbatim>\<open>if (t < bestT)\<close> over that sequence, started at
  \<open>(1e300, 1)\<close>: \<open>bestT\<close> is the least of the times, and \<open>bestK\<close> is the thread count of
  the first observation that attains it; every earlier time is strictly greater, so a
  tie keeps the thread count seen first. For the sequence
  \<open>[(1, 50), (2, 30), (4, 12), (8, 15)]\<close> the selection is \<open>K = 4\<close> with time 12.
\<close>

theorem C4_best_K:
  assumes run: "sweep_loop env cnt res_seq Ks (bestT_init, 1) w = Ok (bestT, bestK) w'"
    and ne: "Ks \<noteq> []"
  shows "(let obs = timings (since w w') in
            map fst obs = Ks
          \<and> fold best_step obs (bestT_init, 1) = (bestT, bestK)
          \<and> (\<exists>i<length obs. obs ! i = (bestK, bestT)
                \<and> (\<forall>j<length obs. bestT \<le> snd (obs ! j))
                \<and> (\<forall>j<i. bestT < snd (obs ! j))))
       \<and> (\<forall>hc hw Ks'. candidate_Ks hc = Some (hw, Ks') \<longrightarrow> Ks' \<noteq> [])
       \<and> fold best_step [(1, 50), (2, 30), (4, 12), (8, 15)] (bestT_init, 1) = (12, 4)"
proof -
  define ts where "ts = fst (sweep_times env Ks (ext w))"
  define obs where "obs = zip Ks ts"
  have d: "\<forall>K \<in> set Ks. cnt K \<noteq> None" using run by (rule sweep_loop_defined)
  have len: "length ts = length Ks" by (simp add: ts_def sweep_times_length)
  from run sweep_loop_run [OF d, of env res_seq "(bestT_init, 1)" w]
  have b: "fold best_step obs (bestT_init, 1) = (bestT, bestK)"
    and w': "w' = w\<lparr>out := out w @ concat (map (sweep_lines cnt res_seq) obs),
                     ext := snd (sweep_times env Ks (ext w))\<rparr>"
    by (simp_all add: obs_def ts_def)
  have o: "timings (since w w') = obs"
    unfolding w' by (simp add: since_append timings_sweep_lines)
  have ks: "map fst obs = Ks" using len by (simp add: obs_def)
  have small: "\<forall>ob \<in> set obs. snd ob < bestT_init"
    using sweep_times_bound [of env Ks "ext w"] len
    by (auto simp: obs_def ts_def dest: set_zip_rightD)
  have "obs \<noteq> []" using ne ks by auto
  then obtain ob where "ob \<in> set obs" by (cases obs) auto
  with small have "\<not> (\<forall>ob \<in> set obs. bestT_init \<le> snd ob)" by force
  with best_fold [OF b]
  obtain i where i: "i < length obs" "obs ! i = (bestK, bestT)" "\<forall>j<i. bestT < snd (obs ! j)"
    and le: "\<forall>ob \<in> set obs. bestT \<le> snd ob"
    by blast
  have "\<forall>j<length obs. bestT \<le> snd (obs ! j)" using le by simp
  with i have sel: "\<exists>i<length obs. obs ! i = (bestK, bestT)
                \<and> (\<forall>j<length obs. bestT \<le> snd (obs ! j))
                \<and> (\<forall>j<i. bestT < snd (obs ! j))"
    by blast
  have ex: "fold best_step [(1, 50), (2, 30), (4, 12), (8, 15)] (bestT_init, 1) = (12, 4)"
    by (simp add: best_step_pair bestT_init_def)
  have cand: "\<forall>hc hw Ks'. candidate_Ks hc = Some (hw, Ks') \<longrightarrow> Ks' \<noteq> []"
    using candidate_Ks_nonempty by blast
  show ?thesis unfolding Let_def o using ks b sel cand ex by blast
qed

text \<open>
  The witness runs the sweep over 1, 2, 4, 8 in the example environment, where the
  medians are 50, 30, 12 and 15.
\<close>

theorem C4_witness:
  "sweep_loop demo_env (\<lambda>K. Some 3) 3 [1, 2, 4, 8] (bestT_init, 1) \<lparr>out = [], ext = 0\<rparr>
     = Ok (12, 4) \<lparr>out = [KTime 1 50, KTime 2 30, KTime 4 12, KTime 8 15], ext = 56\<rparr>
   \<and> [1, 2, 4, 8] \<noteq> ([] :: int list)
   \<and> timings (since \<lparr>out = [], ext = 0 :: nat\<rparr>
         \<lparr>out = [KTime 1 50, KTime 2 30, KTime 4 12, KTime 8 15], ext = 56 :: nat\<rparr>)
       = [(1, 50), (2, 30), (4, 12), (8, 15)]
   \<and> fold best_step (timings (since \<lparr>out = [], ext = 0 :: nat\<rparr>
         \<lparr>out = [KTime 1 50, KTime 2 30, KTime 4 12, KTime 8 15], ext = 56 :: nat\<rparr>))
         (bestT_init, 1) = (12, 4)"
proof -
  have run: "sweep_loop demo_env (\<lambda>K. Some 3) 3 [1, 2, 4, 8] (bestT_init, 1) \<lparr>out = [], ext = 0\<rparr>
     = Ok (12, 4) \<lparr>out = [KTime 1 50, KTime 2 30, KTime 4 12, KTime 8 15], ext = 56\<rparr>"
    by (rule demo_sweep)
  have ne: "[1, 2, 4, 8] \<noteq> ([] :: int list)" by simp
  have t: "timings (since \<lparr>out = [], ext = 0 :: nat\<rparr>
         \<lparr>out = [KTime 1 50, KTime 2 30, KTime 4 12, KTime 8 15], ext = 56 :: nat\<rparr>)
       = [(1, 50), (2, 30), (4, 12), (8, 15)]"
    by (simp add: timings_def since_def)
  from C4_best_K [OF run ne, unfolded Let_def]
  have "fold best_step (timings (since \<lparr>out = [], ext = 0 :: nat\<rparr>
         \<lparr>out = [KTime 1 50, KTime 2 30, KTime 4 12, KTime 8 15], ext = 56 :: nat\<rparr>))
         (bestT_init, 1) = (12, 4)"
    by blast
  with run ne t show ?thesis by blast
qed

section \<open>A wrong count does not stop the sweep\<close>

text \<open>
  C7. Whatever values the counting strategy returns, the sweep does not abort: it
  ends normally, it has written a timing line for every thread count of the list, in
  order, and an error line for exactly the thread counts whose result differs from the
  baseline, each just before the timing line of that thread count. The wrong results
  change nothing else: with any other strategy and baseline the sweep ends with the
  same best pair, the same timing lines and the same state of the world.
\<close>

theorem C7_violation_does_not_abort:
  assumes d: "\<forall>K \<in> set Ks. cnt K \<noteq> None" and d': "\<forall>K \<in> set Ks. cnt' K \<noteq> None"
  shows "\<exists>best w' w''.
           sweep_loop env cnt res_seq Ks best0 w = Ok best w'
         \<and> map fst (timings (since w w')) = Ks
         \<and> errors (since w w') = filter (\<lambda>K. cnt K \<noteq> Some res_seq) Ks
         \<and> since w w' = concat (map (sweep_lines cnt res_seq) (timings (since w w')))
         \<and> sweep_loop env cnt' res_seq' Ks best0 w = Ok best w''
         \<and> timings (since w w'') = timings (since w w')
         \<and> ext w'' = ext w'"
proof -
  define obs where "obs = zip Ks (fst (sweep_times env Ks (ext w)))"
  define x' where "x' = snd (sweep_times env Ks (ext w))"
  define w' where "w' = w\<lparr>out := out w @ concat (map (sweep_lines cnt res_seq) obs), ext := x'\<rparr>"
  define w'' where "w'' = w\<lparr>out := out w @ concat (map (sweep_lines cnt' res_seq') obs), ext := x'\<rparr>"
  have ks: "map fst obs = Ks" by (simp add: obs_def sweep_times_length)
  have r: "sweep_loop env cnt res_seq Ks best0 w = Ok (fold best_step obs best0) w'"
    using sweep_loop_run [OF d] by (simp add: obs_def x'_def w'_def)
  have r': "sweep_loop env cnt' res_seq' Ks best0 w = Ok (fold best_step obs best0) w''"
    using sweep_loop_run [OF d'] by (simp add: obs_def x'_def w''_def)
  have s: "since w w' = concat (map (sweep_lines cnt res_seq) obs)"
    unfolding w'_def by (rule since_append)
  have s': "since w w'' = concat (map (sweep_lines cnt' res_seq') obs)"
    unfolding w''_def by (rule since_append)
  have t: "timings (since w w') = obs" by (simp add: s timings_sweep_lines)
  have t': "timings (since w w'') = obs" by (simp add: s' timings_sweep_lines)
  have e: "errors (since w w') = filter (\<lambda>K. cnt K \<noteq> Some res_seq) Ks"
    by (simp add: s errors_sweep_lines ks)
  have x: "ext w'' = ext w'" by (simp add: w'_def w''_def)
  show ?thesis
    using r r' s t t' e x ks by (intro exI [of _ "fold best_step obs best0"] exI [of _ w'] exI [of _ w'']) simp
qed

text \<open>
  The witness sweeps over 1, 2, 4 with a strategy that is wrong at \<open>K = 2\<close> (it
  returns 0 where the baseline is 3), next to one that is right everywhere.
\<close>

theorem C7_witness:
  "(if 2 = (1::int) then Some 0 else Some (3::int)) \<noteq> None
   \<and> sweep_loop demo_env (\<lambda>K. if K = 2 then Some 0 else Some 3) 3 [1, 2, 4] (bestT_init, 1)
        \<lparr>out = [], ext = 0\<rparr>
      = Ok (12, 4) \<lparr>out = [KTime 1 50, ErrorAtK 2, KTime 2 30, KTime 4 12], ext = 42\<rparr>
   \<and> sweep_loop demo_env (\<lambda>K. Some 3) 3 [1, 2, 4] (bestT_init, 1) \<lparr>out = [], ext = 0\<rparr>
      = Ok (12, 4) \<lparr>out = [KTime 1 50, KTime 2 30, KTime 4 12], ext = 42\<rparr>
   \<and> (\<exists>best w' w''.
         sweep_loop demo_env (\<lambda>K. if K = 2 then Some 0 else Some 3) 3 [1, 2, 4] (bestT_init, 1)
           \<lparr>out = [], ext = 0\<rparr> = Ok best w'
       \<and> map fst (timings (since \<lparr>out = [], ext = 0\<rparr> w')) = [1, 2, 4]
       \<and> errors (since \<lparr>out = [], ext = 0\<rparr> w') = [2]
       \<and> sweep_loop demo_env (\<lambda>K. Some 3) 3 [1, 2, 4] (bestT_init, 1)
           \<lparr>out = [], ext = 0\<rparr> = Ok best w''
       \<and> timings (since \<lparr>out = [], ext = 0\<rparr> w'') = timings (since \<lparr>out = [], ext = 0\<rparr> w'))"
proof -
  let ?bad = "\<lambda>K :: int. if K = 2 then Some 0 else Some (3 :: int)"
  let ?good = "\<lambda>K :: int. Some (3 :: int)"
  have d: "\<forall>K \<in> set [1, 2, 4]. ?bad K \<noteq> None" by simp
  have d': "\<forall>K \<in> set [1, 2, 4]. ?good K \<noteq> None" by simp
  have r: "sweep_loop demo_env ?bad 3 [1, 2, 4] (bestT_init, 1) \<lparr>out = [], ext = 0\<rparr>
      = Ok (12, 4) \<lparr>out = [KTime 1 50, ErrorAtK 2, KTime 2 30, KTime 4 12], ext = 42\<rparr>"
    by (rule demo_sweep_bad)
  have r': "sweep_loop demo_env ?good 3 [1, 2, 4] (bestT_init, 1) \<lparr>out = [], ext = 0\<rparr>
      = Ok (12, 4) \<lparr>out = [KTime 1 50, KTime 2 30, KTime 4 12], ext = 42\<rparr>"
    by (rule demo_sweep_good)
  from C7_violation_does_not_abort [OF d d', of demo_env 3 "(bestT_init, 1)" "\<lparr>out = [], ext = 0\<rparr>" 3]
  obtain best w' w'' where
      "sweep_loop demo_env ?bad 3 [1, 2, 4] (bestT_init, 1) \<lparr>out = [], ext = 0\<rparr> = Ok best w'"
      "map fst (timings (since \<lparr>out = [], ext = 0\<rparr> w')) = [1, 2, 4]"
      "errors (since \<lparr>out = [], ext = 0\<rparr> w') = filter (\<lambda>K. ?bad K \<noteq> Some 3) [1, 2, 4]"
      "since \<lparr>out = [], ext = 0\<rparr> w' = concat (map (sweep_lines ?bad 3) (timings (since \<lparr>out = [], ext = 0\<rparr> w')))"
      "sweep_loop demo_env ?good 3 [1, 2, 4] (bestT_init, 1) \<lparr>out = [], ext = 0\<rparr> = Ok best w''"
      "timings (since \<lparr>out = [], ext = 0\<rparr> w'') = timings (since \<lparr>out = [], ext = 0\<rparr> w')"
      "ext w'' = ext w'"
    by (elim exE conjE) (rule that, assumption+)
  then have "\<exists>best w' w''.
         sweep_loop demo_env ?bad 3 [1, 2, 4] (bestT_init, 1) \<lparr>out = [], ext = 0\<rparr> = Ok best w'
       \<and> map fst (timings (since \<lparr>out = [], ext = 0\<rparr> w')) = [1, 2, 4]
       \<and> errors (since \<lparr>out = [], ext = 0\<rparr> w') = [2]
       \<and> sweep_loop demo_env ?good 3 [1, 2, 4] (bestT_init, 1) \<lparr>out = [], ext = 0\<rparr> = Ok best w''
       \<and> timings (since \<lparr>out = [], ext = 0\<rparr> w'') = timings (since \<lparr>out = [], ext = 0\<rparr> w')"
    by (intro exI [of _ best] exI [of _ w'] exI [of _ w'']) simp
  with r r' show ?thesis by simp
qed

section \<open>The candidate set of the sweep\<close>

text \<open>
  C5. For every hardware parallelism \<open>H\<close> with \<open>1 \<le> H < 2 ^ 29\<close> the list of
  candidate thread counts is the ascending list, without duplicates, of the union of
  \<open>{1, 2, 4, 8, 16, 32, 64}\<close> with every power of two from 2 up to twice \<open>H\<close>; and
  \<^verbatim>\<open>hw\<close> is \<open>H\<close>. From \<open>2 ^ 29\<close> on the doubling \<^verbatim>\<open>k *= 2\<close> overflows.
\<close>

theorem C5_candidates:
  assumes H: "1 \<le> H" "int H < 2 ^ 29"
  shows "candidate_Ks H =
         Some (int H, sorted_list_of_set
                 ({1, 2, 4, 8, 16, 32, 64} \<union> {k. \<exists>j\<ge>1. k = 2 ^ j \<and> k \<le> 2 * int H}))"
proof -
  have hw: "hw_of H = int H" using H by (simp add: hw_of_id)
  from push_loop_run [of "int H" 2 "[1, 2, 4, 8, 16, 32, 64]"] H
  obtain Ks' where p: "push_loop (int H) 2 [1, 2, 4, 8, 16, 32, 64] = Some ([1, 2, 4, 8, 16, 32, 64] @ Ks')"
      and s: "set Ks' = {2 * 2 ^ i | i. (2::int) * 2 ^ i \<le> 2 * int H}"
    by auto
  define Ks where "Ks = [1, 2, 4, 8, 16, 32, 64] @ Ks'"
  have "set Ks = set [1, 2, 4, 8, 16, 32, 64] \<union> {k. \<exists>j\<ge>1. k = 2 ^ j \<and> k \<le> 2 * int H}"
    unfolding Ks_def set_append s pow2_from_two ..
  then have S: "set Ks = {1, 2, 4, 8, 16, 32, 64} \<union> {k. \<exists>j\<ge>1. k = 2 ^ j \<and> k \<le> 2 * int H}"
    by simp
  have "candidate_Ks H = Some (int H, remdups_adj (sort Ks))"
    by (simp only: candidate_Ks_def hw Let_def p Ks_def option.case)
  also have "remdups_adj (sort Ks) = sorted_list_of_set (set Ks)"
    by (rule unique_sort_eq)
  finally show ?thesis by (simp only: S)
qed

theorem C5_witness:
  "(1::nat) \<le> 96 \<and> int 96 < 2 ^ 29
   \<and> candidate_Ks 96 =
       Some (int 96, sorted_list_of_set
               ({1, 2, 4, 8, 16, 32, 64} \<union> {k. \<exists>j\<ge>1. k = 2 ^ j \<and> k \<le> 2 * int 96}))
   \<and> candidate_Ks 96 = Some (96, [1, 2, 4, 8, 16, 32, 64, 128])"
proof -
  have h: "(1::nat) \<le> 96" "int 96 < 2 ^ 29" by simp_all
  have e: "candidate_Ks 96 = Some (96, [1, 2, 4, 8, 16, 32, 64, 128])"
    by code_simp
  show ?thesis using h e C5_candidates [OF h] by simp
qed

text \<open>
  The candidates are not the multiples \<open>H\<close> and \<open>2 * H\<close> of the hardware parallelism
  by powers of two: with six hardware threads the list is the seven constants, and
  neither 6 nor 12 is in it.
\<close>

theorem C5_counterexample:
  "candidate_Ks 6 = Some (6, [1, 2, 4, 8, 16, 32, 64])
   \<and> set [1, 2, 4, 8, 16, 32, 64]
       \<noteq> {1, 2, 4, 8, 16, 32, 64} \<union> {k. \<exists>j. k = int 6 * 2 ^ j \<and> k \<le> 2 * int 6}"
proof -
  have e: "candidate_Ks 6 = Some (6, [1, 2, 4, 8, 16, 32, 64])"
    by code_simp
  have "int 6 = int 6 * 2 ^ 0 \<and> int 6 \<le> 2 * int 6" by simp
  then have "int 6 \<in> {1, 2, 4, 8, 16, 32, 64} \<union> {k. \<exists>j. k = int 6 * 2 ^ j \<and> k \<le> 2 * int 6}"
    by blast
  moreover have "int 6 \<notin> set [1, 2, 4, 8, 16, 32, 64]" by simp
  ultimately have "set [1, 2, 4, 8, 16, 32, 64]
       \<noteq> {1, 2, 4, 8, 16, 32, 64} \<union> {k. \<exists>j. k = int 6 * 2 ^ j \<and> k \<le> 2 * int 6}"
    by metis
  with e show ?thesis by simp
qed

section \<open>A library policy that is not supported\<close>

text \<open>
  C8. When the invocation of a library policy fails, the handler at the call site
  catches the failure: the block ends normally, it has written the line
  \<^verbatim>\<open>NOT supported\<close> and nothing else, the result variable of the policy holds the
  sequential baseline and its time is \<open>- 1\<close>. No exception ever leaves either block.
  The run for that predicate and size goes on: after a failure of \<^verbatim>\<open>par\<close> it is the
  \<^verbatim>\<open>par_unseq\<close> block and the sweep, after a failure of \<^verbatim>\<open>par_unseq\<close> it is the
  sweep, run from the state of the world the failed call left and on the same
  workload, predicate and baseline.
\<close>

theorem C8_policy_failure:
  "(count_if_par env a pred (ext w) = Raise x \<longrightarrow>
      par_block env a pred res_seq w = Ok (res_seq, - 1) (emit ParNotSupported (w\<lparr>ext := x\<rparr>)))
   \<and> (count_if_par_unseq env a pred (ext w) = Raise x \<longrightarrow>
      par_unseq_block env a pred res_seq w
        = Ok (res_seq, - 1) (emit ParUnseqNotSupported (w\<lparr>ext := x\<rparr>)))
   \<and> (\<forall>w'. par_block env a pred res_seq w \<noteq> Raise w'
           \<and> par_unseq_block env a pred res_seq w \<noteq> Raise w')
   \<and> (count_if_par env a (snd pp) (snd (quiet_timer env (ext w))) = Raise x \<longrightarrow>
        pred_body env a pp w =
          then_do (par_unseq_block env a (snd pp) (seq_cnt a (snd pp))
                     \<lparr>out = out w @ [PredName (fst pp), SeqTime (fst (quiet_timer env (ext w))),
                                     ParNotSupported],
                      ext = x\<rparr>)
            (\<lambda>ru w4. custom_sweep env (my_parallel_cnt a (snd pp)) (seq_cnt a (snd pp)) w4))
   \<and> (count_if_par_unseq env a pred (ext w) = Raise x \<longrightarrow>
        then_do (par_unseq_block env a pred res_seq w) (\<lambda>ru w4. custom_sweep env cnt res_seq w4)
          = custom_sweep env cnt res_seq (emit ParUnseqNotSupported (w\<lparr>ext := x\<rparr>)))"
proof (intro conjI impI allI)
  assume "count_if_par env a pred (ext w) = Raise x"
  then show "par_block env a pred res_seq w = Ok (res_seq, - 1) (emit ParNotSupported (w\<lparr>ext := x\<rparr>))"
    by (rule par_block_unsupported)
next
  assume "count_if_par_unseq env a pred (ext w) = Raise x"
  then show "par_unseq_block env a pred res_seq w
        = Ok (res_seq, - 1) (emit ParUnseqNotSupported (w\<lparr>ext := x\<rparr>))"
    by (rule par_unseq_block_unsupported)
next
  fix w' show "par_block env a pred res_seq w \<noteq> Raise w'" by (rule par_block_caught)
next
  fix w' show "par_unseq_block env a pred res_seq w \<noteq> Raise w'" by (rule par_unseq_block_caught)
next
  assume f: "count_if_par env a (snd pp) (snd (quiet_timer env (ext w))) = Raise x"
  let ?w2 = "\<lparr>out = out w @ [PredName (fst pp), SeqTime (fst (quiet_timer env (ext w)))],
             ext = snd (quiet_timer env (ext w))\<rparr>"
  have "par_block env a (snd pp) (seq_cnt a (snd pp)) ?w2
        = Ok (seq_cnt a (snd pp), - 1) (emit ParNotSupported (?w2\<lparr>ext := x\<rparr>))"
    by (rule par_block_unsupported) (simp add: f)
  moreover have "emit ParNotSupported (?w2\<lparr>ext := x\<rparr>)
        = \<lparr>out = out w @ [PredName (fst pp), SeqTime (fst (quiet_timer env (ext w))),
                          ParNotSupported],
           ext = x\<rparr>"
    by (simp add: emit_def)
  ultimately show "pred_body env a pp w =
          then_do (par_unseq_block env a (snd pp) (seq_cnt a (snd pp))
                     \<lparr>out = out w @ [PredName (fst pp), SeqTime (fst (quiet_timer env (ext w))),
                                     ParNotSupported],
                      ext = x\<rparr>)
            (\<lambda>ru w4. custom_sweep env (my_parallel_cnt a (snd pp)) (seq_cnt a (snd pp)) w4)"
    by (simp add: pred_body_seq then_do_def)
next
  assume "count_if_par_unseq env a pred (ext w) = Raise x"
  then show "then_do (par_unseq_block env a pred res_seq w) (\<lambda>ru w4. custom_sweep env cnt res_seq w4)
          = custom_sweep env cnt res_seq (emit ParUnseqNotSupported (w\<lparr>ext := x\<rparr>))"
    by (simp add: par_unseq_block_unsupported then_do_def)
qed

text \<open>
  The witness: in the example environment \<^verbatim>\<open>par\<close> throws, and in the variant of it
  given here \<^verbatim>\<open>par_unseq\<close> throws as well. The baseline of the even test over
  \<open>[1, 2, 3]\<close> is 1.
\<close>

theorem C8_witness:
  "count_if_par demo_env [1, 2, 3] pred_light (ext \<lparr>out = [], ext = 0 :: nat\<rparr>) = Raise 0
   \<and> par_block demo_env [1, 2, 3] pred_light 1 \<lparr>out = [], ext = 0\<rparr>
       = Ok (1, - 1) \<lparr>out = [ParNotSupported], ext = 0\<rparr>
   \<and> count_if_par_unseq (demo_env\<lparr>count_if_par_unseq := \<lambda>a p x. Raise x\<rparr>) [1, 2, 3] pred_light
        (ext \<lparr>out = [ParNotSupported], ext = 0 :: nat\<rparr>) = Raise 0
   \<and> par_unseq_block (demo_env\<lparr>count_if_par_unseq := \<lambda>a p x. Raise x\<rparr>) [1, 2, 3] pred_light 1
        \<lparr>out = [ParNotSupported], ext = 0\<rparr>
       = Ok (1, - 1) \<lparr>out = [ParNotSupported, ParUnseqNotSupported], ext = 0\<rparr>
   \<and> count_if_par demo_env [1, 2, 3] pred_light (snd (quiet_timer demo_env 0)) = Raise 14
   \<and> pred_body demo_env [1, 2, 3] (''light'', pred_light) \<lparr>out = [], ext = 0\<rparr>
       = then_do (par_unseq_block demo_env [1, 2, 3] pred_light 1
                    \<lparr>out = [PredName ''light'', SeqTime 50, ParNotSupported], ext = 14\<rparr>)
           (\<lambda>ru w4. custom_sweep demo_env (my_parallel_cnt [1, 2, 3] pred_light) 1 w4)"
proof -
  let ?env2 = "demo_env\<lparr>count_if_par_unseq := \<lambda>a p x. Raise x\<rparr>"
  let ?w = "\<lparr>out = [], ext = 0 :: nat\<rparr>"
  let ?w1 = "\<lparr>out = [ParNotSupported], ext = 0 :: nat\<rparr>"
  have h1: "count_if_par demo_env [1, 2, 3] pred_light (ext ?w) = Raise 0"
    by (simp add: demo_env_def)
  have h2: "count_if_par_unseq ?env2 [1, 2, 3] pred_light (ext ?w1) = Raise 0"
    by simp
  have h3: "count_if_par demo_env [1, 2, 3] (snd (''light'', pred_light))
              (snd (quiet_timer demo_env (ext ?w))) = Raise 14"
    by (simp add: demo_quiet_timer) (simp add: demo_env_def)
  have s: "seq_cnt [1, 2, 3] pred_light = 1"
    by (simp add: seq_cnt_def pred_light_def)
  note c = C8_policy_failure [of demo_env "[1, 2, 3]" pred_light ?w 0 1]
  note c2 = C8_policy_failure [of ?env2 "[1, 2, 3]" pred_light ?w1 0 1]
  note c3 = C8_policy_failure [of demo_env "[1, 2, 3]" _ ?w 14 _ "(''light'', pred_light)"]
  have b1: "par_block demo_env [1, 2, 3] pred_light 1 ?w = Ok (1, - 1) \<lparr>out = [ParNotSupported], ext = 0\<rparr>"
    using c [THEN conjunct1, rule_format, OF h1] by (simp add: emit_def)
  have b2: "par_unseq_block ?env2 [1, 2, 3] pred_light 1 ?w1
       = Ok (1, - 1) \<lparr>out = [ParNotSupported, ParUnseqNotSupported], ext = 0\<rparr>"
    using c2 [THEN conjunct2, THEN conjunct1, rule_format, OF h2] by (simp add: emit_def)
  have b3: "pred_body demo_env [1, 2, 3] (''light'', pred_light) ?w
       = then_do (par_unseq_block demo_env [1, 2, 3] pred_light 1
                    \<lparr>out = [PredName ''light'', SeqTime 50, ParNotSupported], ext = 14\<rparr>)
           (\<lambda>ru w4. custom_sweep demo_env (my_parallel_cnt [1, 2, 3] pred_light) 1 w4)"
    using c3 [THEN conjunct2, THEN conjunct2, THEN conjunct2, THEN conjunct1, rule_format, OF h3]
    by (simp add: s demo_quiet_timer)
  show ?thesis using h1 h2 h3 b1 b2 b3 by simp
qed

section \<open>The workloads do not depend on the execution\<close>

text \<open>
  C10. The workloads are determined by the seed 123456 and the random-number library
  alone. Two executions, in environments that share the library (its generator and
  its distribution) and may differ in everything else (the clock, the hardware
  threads, the support of the policies), run the loop over the sizes on the same
  three workloads, of 100000, 1000000 and 5000000 elements; and on each of them, for
  every predicate and every \<open>K \<ge> 1\<close>, the partitioned counter returns the count of the
  sequential counter, which is a function of the workload and the predicate.
\<close>

theorem C10_deterministic_workloads:
  assumes lib: "rng_seed env' = rng_seed env" "draw env' = draw env"
  shows "(let Ns = [100000, 1000000, 5000000];
              W = workloads (draw env) Ns (rng_seed env 123456)
          in main env w =
               sizes_run env [(''light'', pred_light), (''heavy'', pred_heavy env)] (zip Ns W)
                 (emit (CpuThreads (hardware_concurrency env (ext w))) w)
           \<and> main env' w' =
               sizes_run env' [(''light'', pred_light), (''heavy'', pred_heavy env')] (zip Ns W)
                 (emit (CpuThreads (hardware_concurrency env' (ext w'))) w')
           \<and> map length W = [100000, 1000000, 5000000]
           \<and> (\<forall>a \<in> set W. \<forall>p K. 1 \<le> K \<longrightarrow> my_parallel_cnt a p K = Some (seq_cnt a p)))"
proof -
  define Ns :: "int list" where "Ns = [100000, 1000000, 5000000]"
  define W where "W = workloads (draw env) Ns (rng_seed env 123456)"
  have m: "main env w =
               sizes_run env [(''light'', pred_light), (''heavy'', pred_heavy env)] (zip Ns W)
                 (emit (CpuThreads (hardware_concurrency env (ext w))) w)"
    by (simp only: main_def Let_def sizes_loop_workloads W_def Ns_def)
  have m': "main env' w' =
               sizes_run env' [(''light'', pred_light), (''heavy'', pred_heavy env')] (zip Ns W)
                 (emit (CpuThreads (hardware_concurrency env' (ext w'))) w')"
    by (simp only: main_def Let_def sizes_loop_workloads W_def Ns_def lib)
  have l: "map length W = [100000, 1000000, 5000000]"
    unfolding W_def workloads_lengths by (simp add: Ns_def)
  have c: "my_parallel_cnt a p K = Some (seq_cnt a p)" if "a \<in> set W" "1 \<le> K" for a p K
  proof -
    from that(1) have "length a \<in> set (map length W)" by simp
    then have "int (length a) \<le> INT_MAX" unfolding l by (auto simp: INT_MAX_def)
    then show ?thesis using that(2) by (rule my_parallel_cnt_in_range)
  qed
  show ?thesis
    unfolding Let_def Ns_def [symmetric] W_def [symmetric] using m m' l c by blast
qed

text \<open>
  The witness compares the example environment with one that has another clock,
  sixteen hardware threads and a supported policy \<^verbatim>\<open>par\<close>.
\<close>

theorem C10_witness:
  "rng_seed (demo_env\<lparr>clk_now := \<lambda>x. (0, x), hardware_concurrency := \<lambda>x. 16,
                       count_if_par := \<lambda>a p x. Ok (seq_cnt a p) x\<rparr>) = rng_seed demo_env
   \<and> draw (demo_env\<lparr>clk_now := \<lambda>x. (0, x), hardware_concurrency := \<lambda>x. 16,
                     count_if_par := \<lambda>a p x. Ok (seq_cnt a p) x\<rparr>) = draw demo_env
   \<and> (let Ns = [100000, 1000000, 5000000];
            W = workloads (draw demo_env) Ns (rng_seed demo_env 123456)
        in main demo_env \<lparr>out = [], ext = 0\<rparr> =
             sizes_run demo_env [(''light'', pred_light), (''heavy'', pred_heavy demo_env)] (zip Ns W)
               \<lparr>out = [CpuThreads 4], ext = 0\<rparr>
         \<and> main (demo_env\<lparr>clk_now := \<lambda>x. (0, x), hardware_concurrency := \<lambda>x. 16,
                             count_if_par := \<lambda>a p x. Ok (seq_cnt a p) x\<rparr>) \<lparr>out = [], ext = 7\<rparr> =
             sizes_run (demo_env\<lparr>clk_now := \<lambda>x. (0, x), hardware_concurrency := \<lambda>x. 16,
                                  count_if_par := \<lambda>a p x. Ok (seq_cnt a p) x\<rparr>)
               [(''light'', pred_light), (''heavy'', pred_heavy demo_env)] (zip Ns W)
               \<lparr>out = [CpuThreads 16], ext = 7\<rparr>
         \<and> map length W = [100000, 1000000, 5000000])"
proof -
  let ?env2 = "demo_env\<lparr>clk_now := \<lambda>x. (0, x), hardware_concurrency := \<lambda>x. 16,
                       count_if_par := \<lambda>a p x. Ok (seq_cnt a p) x\<rparr>"
  have h: "rng_seed ?env2 = rng_seed demo_env" "draw ?env2 = draw demo_env" by simp_all
  have e: "emit (CpuThreads (hardware_concurrency demo_env (ext \<lparr>out = [], ext = 0 :: nat\<rparr>)))
             \<lparr>out = [], ext = 0\<rparr> = \<lparr>out = [CpuThreads 4], ext = 0\<rparr>"
    by (simp add: emit_def demo_env_def)
  have e2: "emit (CpuThreads (hardware_concurrency ?env2 (ext \<lparr>out = [], ext = 7 :: nat\<rparr>)))
             \<lparr>out = [], ext = 7\<rparr> = \<lparr>out = [CpuThreads 16], ext = 7\<rparr>"
    by (simp add: emit_def)
  have p: "pred_heavy ?env2 = pred_heavy demo_env" by simp
  note c = C10_deterministic_workloads [OF h, of "\<lparr>out = [], ext = 0\<rparr>" "\<lparr>out = [], ext = 7\<rparr>",
              unfolded Let_def e e2 p]
  show ?thesis
    unfolding Let_def using h c [THEN conjunct1] c [THEN conjunct2, THEN conjunct1]
      c [THEN conjunct2, THEN conjunct2, THEN conjunct1]
    by (intro conjI)
qed

end
